theory Spec2Isabelle
  imports Main "HOL-Library.Signed_Division"
begin

section \<open>Bounded buffer with condition variables (prod_cons_cond_t.c)\<close>

text \<open>
  The program shares one \<open>shared_data\<close> structure between n producer threads and m
  consumer threads. Every access to the structure except the test of the outer
  \<open>while\<close> loops happens with the mutex held, so the model is an interleaving of
  the threads at the granularity of the statements that touch the monitor: the loop
  test, the call of \<open>rand\<close>, taking the mutex, the test of the wait loop, the wait, the
  guarded body, the signal and the release. The body (lines 105-115 and 139-150) is one
  step: it runs with the mutex held, and the only unlocked reads of other threads (the
  outer loop tests) read a counter that the body writes exactly once.

  The constants of the source are the fields of a configuration, so that the scenario
  with a smaller buffer runs the same program; \<open>source_config\<close> holds their values.

  The pthread calls of the worker loops are taken to succeed, as they do on a mutex and
  on condition variables that were initialised with default attributes. The C \<open>int\<close>
  fields are modelled as \<open>int\<close>: the counters stay between 0 and the target, the cursors
  below the buffer size (lemmas below), so no arithmetic of the program wraps.
\<close>

subsection \<open>Constants\<close>

record config =
  BUFFER_SIZE :: int
  items_to_produce :: int
  items_to_consume :: int

definition NEUTRAL_VALUE :: int where
  "NEUTRAL_VALUE = 0"

text \<open>The values of the \<open>#define\<close>s of the source (lines 18-21).\<close>

definition source_config :: config where
  "source_config = \<lparr>BUFFER_SIZE = 10, items_to_produce = 100, items_to_consume = 100\<rparr>"

text \<open>The configuration of the scenario with capacity 3 and target 5.\<close>

definition scenario_config :: config where
  "scenario_config = \<lparr>BUFFER_SIZE = 3, items_to_produce = 5, items_to_consume = 5\<rparr>"

text \<open>The operator \<open>%\<close> of C truncates towards zero.\<close>

definition c_rem :: "int \<Rightarrow> int \<Rightarrow> int" where
  "c_rem a b = a smod b"

subsection \<open>Threads and shared data\<close>

datatype tid = Producer nat | Consumer nat

text \<open>
  Control points of \<open>producer\<close>: line 94 (\<open>P_while\<close>), 95 (\<open>P_rand\<close>), 97 (\<open>P_lock\<close>),
  100 (\<open>P_full_check\<close>), 101 blocked in \<open>pthread_cond_wait\<close> (\<open>P_waiting\<close>) and woken but
  not yet holding the mutex again (\<open>P_wakeup\<close>), 105-115 (\<open>P_body\<close>), 117 (\<open>P_signal\<close>),
  120 (\<open>P_unlock\<close>), and after the loop (\<open>P_exit\<close>). The argument is the local \<open>data\<close>.
\<close>

datatype ppc =
    P_while | P_rand | P_lock int | P_full_check int | P_waiting int | P_wakeup int
  | P_body int | P_signal | P_unlock | P_exit

text \<open>
  Control points of \<open>consumer\<close>: line 130 (\<open>C_while\<close>), 131 (\<open>C_lock\<close>), 134
  (\<open>C_empty_check\<close>), 135 (\<open>C_waiting\<close>, \<open>C_wakeup\<close>), 139-150 (\<open>C_body\<close>), 152
  (\<open>C_signal\<close>), 155 (\<open>C_unlock\<close>), and after the loop (\<open>C_exit\<close>).
\<close>

datatype cpc =
    C_while | C_lock | C_empty_check | C_waiting | C_wakeup
  | C_body | C_signal | C_unlock | C_exit

text \<open>
  What the workers print: the line of a producer (line 107) or of a consumer (line 141)
  with the worker's ordinal, the slot index and the value, and the dump of
  \<open>printBuffer\<close>.
\<close>

datatype event =
    Prod_line int int int
  | Cons_line int int int
  | Buffer_dump "int list"

text \<open>
  The fields of \<open>shared_data\<close> (\<open>in\<close> and \<open>out\<close> are \<open>in_idx\<close> and \<open>out_idx\<close>), the
  mutex as its owner, and the control points of the threads. The threads blocked on
  the condition variable \<open>full\<close> are the producers at \<open>P_waiting\<close>, those blocked on
  \<open>empty\<close> the consumers at \<open>C_waiting\<close>.
\<close>

record system =
  buffer :: "int list"
  in_idx :: int
  out_idx :: int
  produced_items :: int
  consumed_items :: int
  mutex :: "tid option"
  current_items_num :: int
  producers :: "ppc list"
  consumers :: "cpc list"
  stdout :: "event list"

text \<open>
  The state after \<open>init_shared\<close> (lines 51-58) and the creation of n producers and m
  consumers, none of which has run yet.
\<close>

definition init_shared :: "config \<Rightarrow> nat \<Rightarrow> nat \<Rightarrow> system" where
  "init_shared cfg n m =
     \<lparr>buffer = replicate (nat (BUFFER_SIZE cfg)) NEUTRAL_VALUE,
      in_idx = 0, out_idx = 0,
      produced_items = 0, consumed_items = 0,
      mutex = None,
      current_items_num = 0,
      producers = replicate n P_while,
      consumers = replicate m C_while,
      stdout = []\<rparr>"

subsection \<open>Condition variables\<close>

definition waiting_producers :: "system \<Rightarrow> nat list" where
  "waiting_producers s =
     filter (\<lambda>i. case producers s ! i of P_waiting d \<Rightarrow> True | _ \<Rightarrow> False)
       [0..<length (producers s)]"

definition waiting_consumers :: "system \<Rightarrow> nat list" where
  "waiting_consumers s =
     filter (\<lambda>j. consumers s ! j = C_waiting) [0..<length (consumers s)]"

text \<open>
  \<open>pthread_cond_signal\<close> unblocks at least one of the threads blocked on the condition
  variable, if any is blocked: \<open>ws\<close>, the threads it unblocks, is a choice of the
  runtime.
\<close>

definition signal_choice :: "nat list \<Rightarrow> nat list \<Rightarrow> bool" where
  "signal_choice ws waiting \<longleftrightarrow> list_all (\<lambda>w. w \<in> set waiting) ws \<and> (ws = [] \<longrightarrow> waiting = [])"

definition wake_producers :: "nat list \<Rightarrow> ppc list \<Rightarrow> ppc list" where
  "wake_producers ws ps =
     map (\<lambda>i. if i \<in> set ws then (case ps ! i of P_waiting d \<Rightarrow> P_wakeup d | pc \<Rightarrow> pc) else ps ! i)
       [0..<length ps]"

definition wake_consumers :: "nat list \<Rightarrow> cpc list \<Rightarrow> cpc list" where
  "wake_consumers ws cs =
     map (\<lambda>j. if j \<in> set ws then (case cs ! j of C_waiting \<Rightarrow> C_wakeup | pc \<Rightarrow> pc) else cs ! j)
       [0..<length cs]"

subsection \<open>The producer\<close>

definition set_ppc :: "nat \<Rightarrow> ppc \<Rightarrow> system \<Rightarrow> system" where
  "set_ppc i pc s = s\<lparr>producers := (producers s)[i := pc]\<rparr>"

definition set_cpc :: "nat \<Rightarrow> cpc \<Rightarrow> system \<Rightarrow> system" where
  "set_cpc j pc s = s\<lparr>consumers := (consumers s)[j := pc]\<rparr>"

text \<open>Lines 106-114, run by producer \<open>i\<close> (whose \<open>thread_i\<close> is \<open>i + 1\<close>).\<close>

definition produce :: "config \<Rightarrow> nat \<Rightarrow> int \<Rightarrow> system \<Rightarrow> system" where
  "produce cfg i d s =
     (let b = (buffer s)[nat (in_idx s) := d]
      in s\<lparr>buffer := b,
           stdout := stdout s @ [Prod_line (int i + 1) (in_idx s) d, Buffer_dump b],
           in_idx := c_rem (in_idx s + 1) (BUFFER_SIZE cfg),
           produced_items := produced_items s + 1,
           current_items_num := current_items_num s + 1\<rparr>)"

text \<open>
  One step of producer \<open>i\<close>. \<open>r\<close> is what \<open>rand\<close> returns when the step is line 95, \<open>ws\<close>
  the consumers that the signal unblocks when the step is line 117. The result is
  \<open>None\<close> when the thread cannot move: it is blocked on the mutex or on the condition
  variable, or it has left its loop.
\<close>

definition producer :: "config \<Rightarrow> nat \<Rightarrow> int \<Rightarrow> nat list \<Rightarrow> system \<Rightarrow> system option" where
  "producer cfg i r ws s =
     (if length (producers s) \<le> i then None
      else case producers s ! i of
        P_while \<Rightarrow>
          Some (set_ppc i (if produced_items s < items_to_produce cfg then P_rand else P_exit) s)
      | P_rand \<Rightarrow>
          (if 0 \<le> r \<and> r \<le> 2147483647 then Some (set_ppc i (P_lock (c_rem r 99 + 1)) s) else None)
      | P_lock d \<Rightarrow>
          (if mutex s = None then Some (set_ppc i (P_full_check d) (s\<lparr>mutex := Some (Producer i)\<rparr>))
           else None)
      | P_full_check d \<Rightarrow>
          (if current_items_num s = BUFFER_SIZE cfg
           then Some (set_ppc i (P_waiting d) (s\<lparr>mutex := None\<rparr>))
           else Some (set_ppc i (P_body d) s))
      | P_waiting d \<Rightarrow> None
      | P_wakeup d \<Rightarrow>
          (if mutex s = None then Some (set_ppc i (P_full_check d) (s\<lparr>mutex := Some (Producer i)\<rparr>))
           else None)
      | P_body d \<Rightarrow>
          Some (set_ppc i P_signal
                  (if produced_items s < items_to_produce cfg then produce cfg i d s else s))
      | P_signal \<Rightarrow>
          (if signal_choice ws (waiting_consumers s)
           then Some (set_ppc i P_unlock (s\<lparr>consumers := wake_consumers ws (consumers s)\<rparr>))
           else None)
      | P_unlock \<Rightarrow> Some (set_ppc i P_while (s\<lparr>mutex := None\<rparr>))
      | P_exit \<Rightarrow> None)"

subsection \<open>The consumer\<close>

text \<open>Lines 140-149, run by consumer \<open>j\<close>.\<close>

definition consume :: "config \<Rightarrow> nat \<Rightarrow> system \<Rightarrow> system" where
  "consume cfg j s =
     (let d = buffer s ! nat (out_idx s);
          b = (buffer s)[nat (out_idx s) := NEUTRAL_VALUE]
      in s\<lparr>stdout := stdout s @ [Cons_line (int j + 1) (out_idx s) d, Buffer_dump b],
           buffer := b,
           out_idx := c_rem (out_idx s + 1) (BUFFER_SIZE cfg),
           consumed_items := consumed_items s + 1,
           current_items_num := current_items_num s - 1\<rparr>)"

definition consumer :: "config \<Rightarrow> nat \<Rightarrow> nat list \<Rightarrow> system \<Rightarrow> system option" where
  "consumer cfg j ws s =
     (if length (consumers s) \<le> j then None
      else case consumers s ! j of
        C_while \<Rightarrow>
          Some (set_cpc j (if consumed_items s < items_to_consume cfg then C_lock else C_exit) s)
      | C_lock \<Rightarrow>
          (if mutex s = None then Some (set_cpc j C_empty_check (s\<lparr>mutex := Some (Consumer j)\<rparr>))
           else None)
      | C_empty_check \<Rightarrow>
          (if current_items_num s = 0 \<and> consumed_items s \<noteq> items_to_consume cfg
           then Some (set_cpc j C_waiting (s\<lparr>mutex := None\<rparr>))
           else Some (set_cpc j C_body s))
      | C_waiting \<Rightarrow> None
      | C_wakeup \<Rightarrow>
          (if mutex s = None then Some (set_cpc j C_empty_check (s\<lparr>mutex := Some (Consumer j)\<rparr>))
           else None)
      | C_body \<Rightarrow>
          Some (set_cpc j C_signal
                  (if consumed_items s < items_to_consume cfg then consume cfg j s else s))
      | C_signal \<Rightarrow>
          (if signal_choice ws (waiting_producers s)
           then Some (set_cpc j C_unlock (s\<lparr>producers := wake_producers ws (producers s)\<rparr>))
           else None)
      | C_unlock \<Rightarrow> Some (set_cpc j C_while (s\<lparr>mutex := None\<rparr>))
      | C_exit \<Rightarrow> None)"

subsection \<open>Interleavings\<close>

text \<open>
  \<open>pthread_cond_wait\<close> may also return without a signal: a spurious wakeup moves a
  blocked thread to the point where it takes the mutex again.
\<close>

definition spurious_wakeup :: "tid \<Rightarrow> system \<Rightarrow> system option" where
  "spurious_wakeup t s =
     (case t of
        Producer i \<Rightarrow>
          (if length (producers s) \<le> i then None
           else case producers s ! i of P_waiting d \<Rightarrow> Some (set_ppc i (P_wakeup d) s) | _ \<Rightarrow> None)
      | Consumer j \<Rightarrow>
          (if length (consumers s) \<le> j then None
           else case consumers s ! j of C_waiting \<Rightarrow> Some (set_cpc j C_wakeup s) | _ \<Rightarrow> None))"

datatype action = Run tid int "nat list" | Spurious tid

definition step :: "config \<Rightarrow> action \<Rightarrow> system \<Rightarrow> system option" where
  "step cfg a s =
     (case a of
        Run (Producer i) r ws \<Rightarrow> producer cfg i r ws s
      | Run (Consumer j) r ws \<Rightarrow> consumer cfg j ws s
      | Spurious t \<Rightarrow> spurious_wakeup t s)"

fun run :: "config \<Rightarrow> action list \<Rightarrow> system \<Rightarrow> system option" where
  "run cfg [] s = Some s"
| "run cfg (a # as) s = (case step cfg a s of None \<Rightarrow> None | Some s' \<Rightarrow> run cfg as s')"

inductive reachable :: "config \<Rightarrow> nat \<Rightarrow> nat \<Rightarrow> system \<Rightarrow> bool" for cfg n m where
  reachable_init: "reachable cfg n m (init_shared cfg n m)"
| reachable_step: "reachable cfg n m s \<Longrightarrow> step cfg a s = Some s' \<Longrightarrow> reachable cfg n m s'"

subsection \<open>Command line and start-up\<close>

text \<open>
  \<open>main\<close> reads the two counts with \<open>strtol\<close> in base 10 and converts the results
  to \<open>int\<close>. \<open>strtol\<close> is modelled after the C standard: it skips white space, reads
  an optional sign and the longest run of decimal digits, saturates at \<open>LONG_MIN\<close> and
  \<open>LONG_MAX\<close>, and returns the value with the unread rest of the string; without a digit
  it returns 0 and the whole string as the rest. The widths are those of the LP64 data
  model of 64-bit Linux, BSD and macOS: \<open>long\<close> has 64 bits and \<open>int\<close> 32, and the
  conversion from \<open>long\<close> to \<open>int\<close> keeps the low 32 bits, as GCC and Clang define it.
  An argument is a C string, so it holds no NUL, and \<open>*str_end != 0\<close> says that the rest
  is not empty.
\<close>

definition isspace :: "char \<Rightarrow> bool" where
  "isspace c \<longleftrightarrow> c \<in> set [CHR '' '', CHR 0x09, CHR 0x0A, CHR 0x0B, CHR 0x0C, CHR 0x0D]"

definition isdigit :: "char \<Rightarrow> bool" where
  "isdigit c \<longleftrightarrow> c \<in> set ''0123456789''"

definition digit_value :: "char \<Rightarrow> int" where
  "digit_value c = int (of_char c) - 48"

definition LONG_MAX :: int where
  "LONG_MAX = 9223372036854775807"

definition LONG_MIN :: int where
  "LONG_MIN = - 9223372036854775808"

definition strtol :: "string \<Rightarrow> int \<times> string" where
  "strtol nptr =
     (let s1 = dropWhile isspace nptr;
          negative = (case s1 of c # cs \<Rightarrow> c = CHR ''-'' | [] \<Rightarrow> False);
          s2 = (case s1 of c # cs \<Rightarrow> if c = CHR ''-'' \<or> c = CHR ''+'' then cs else s1 | [] \<Rightarrow> s1);
          digits = takeWhile isdigit s2;
          v = foldl (\<lambda>a c. 10 * a + digit_value c) 0 digits
      in if digits = [] then (0, nptr)
         else (max LONG_MIN (min LONG_MAX (if negative then - v else v)), dropWhile isdigit s2))"

definition int_of_long :: "int \<Rightarrow> int" where
  "int_of_long v = (v + 2147483648) mod 4294967296 - 2147483648"

text \<open>
  What \<open>main\<close> does is recorded as the list of its messages on \<open>stderr\<close> and of its
  calls that create and join threads, ending with the exit code. The return codes of the
  pthread calls are given by the environment. \<open>malloc\<close> is taken to succeed.
\<close>

datatype diag =
    Usage "string option"
  | Invalid_number
  | Error_mutex_init int
  | Error_cond_init int
  | Error_create int
  | Error_join int

datatype main_event = Stderr diag | Create tid | Join tid | Destroy | Exit int

record pthread_env =
  rc_mutex_init :: int
  rc_cond_init_empty :: int
  rc_cond_init_full :: int
  rc_create :: "tid \<Rightarrow> int"
  rc_join :: "tid \<Rightarrow> int"

text \<open>
  The second half of \<open>init_shared\<close> (lines 60-73): the first call that fails is
  reported, and the function returns. It returns \<open>void\<close>, so its caller sees nothing of
  the failure.
\<close>

definition init_shared_errors :: "pthread_env \<Rightarrow> main_event list" where
  "init_shared_errors env =
     (if rc_mutex_init env \<noteq> 0 then [Stderr (Error_mutex_init (rc_mutex_init env))]
      else if rc_cond_init_empty env \<noteq> 0 then [Stderr (Error_cond_init (rc_cond_init_empty env))]
      else if rc_cond_init_full env \<noteq> 0 then [Stderr (Error_cond_init (rc_cond_init_full env))]
      else [])"

text \<open>
  The four loops of \<open>main\<close> (lines 186-219) call \<open>pthread_create\<close> and
  \<open>pthread_join\<close> in turn; the first call that fails ends the process with code 1, and
  after the last one \<open>main\<close> destroys the shared data and exits with code 0. A join
  returns once its thread has left its loop.
\<close>

datatype thread_call = Call_create tid | Call_join tid

fun thread_calls :: "pthread_env \<Rightarrow> thread_call list \<Rightarrow> main_event list" where
  "thread_calls env [] = [Destroy, Exit 0]"
| "thread_calls env (Call_create t # cs) =
     (if rc_create env t \<noteq> 0 then [Stderr (Error_create (rc_create env t)), Exit 1]
      else Create t # thread_calls env cs)"
| "thread_calls env (Call_join t # cs) =
     (if rc_join env t \<noteq> 0 then [Stderr (Error_join (rc_join env t)), Exit 1]
      else Join t # thread_calls env cs)"

text \<open>
Lines 162-175: the check of the arguments.
\<close>

definition parse_arguments :: "string list \<Rightarrow> diag + int \<times> int" where
  "parse_arguments argv =
     (if length argv \<noteq> 3 then Inl (Usage (case argv of [] \<Rightarrow> None | a # _ \<Rightarrow> Some a))
      else
        let (l1, str_end1) = strtol (argv ! 1);
            (l2, str_end2) = strtol (argv ! 2);
            producers_num = int_of_long l1;
            consumers_num = int_of_long l2
        in if (str_end1 \<noteq> [] \<or> producers_num \<le> 0) \<or> (str_end2 \<noteq> [] \<or> consumers_num \<le> 0)
           then Inl Invalid_number
           else Inr (producers_num, consumers_num))"

definition main :: "string list \<Rightarrow> pthread_env \<Rightarrow> main_event list" where
  "main argv env =
     (case parse_arguments argv of
        Inl d \<Rightarrow> [Stderr d, Exit 1]
      | Inr (producers_num, consumers_num) \<Rightarrow>
          init_shared_errors env @
          thread_calls env
            (map (\<lambda>i. Call_create (Producer i)) [0..<nat producers_num] @
             map (\<lambda>i. Call_create (Consumer i)) [0..<nat consumers_num] @
             map (\<lambda>i. Call_join (Producer i)) [0..<nat producers_num] @
             map (\<lambda>i. Call_join (Consumer i)) [0..<nat consumers_num]))"

definition all_succeed :: pthread_env where
  "all_succeed = \<lparr>rc_mutex_init = 0, rc_cond_init_empty = 0, rc_cond_init_full = 0,
     rc_create = (\<lambda>t. 0), rc_join = (\<lambda>t. 0)\<rparr>"

subsection \<open>Invariants of the monitor\<close>

text \<open>
  A configuration is well formed when the buffer has at least one slot and the targets
  are not negative, as in the source.
\<close>

definition wf_config :: "config \<Rightarrow> bool" where
  "wf_config cfg \<longleftrightarrow> 0 < BUFFER_SIZE cfg \<and> 0 \<le> items_to_produce cfg \<and> 0 \<le> items_to_consume cfg"

text \<open>
  The control points at which a thread holds the mutex, and the lock discipline: a
  thread is at such a point exactly when it owns the mutex.
\<close>

fun p_holds :: "ppc \<Rightarrow> bool" where
  "p_holds (P_full_check d) = True"
| "p_holds (P_body d) = True"
| "p_holds P_signal = True"
| "p_holds P_unlock = True"
| "p_holds _ = False"

fun c_holds :: "cpc \<Rightarrow> bool" where
  "c_holds C_empty_check = True"
| "c_holds C_body = True"
| "c_holds C_signal = True"
| "c_holds C_unlock = True"
| "c_holds _ = False"

definition lock_inv :: "system \<Rightarrow> bool" where
  "lock_inv s \<longleftrightarrow>
     (\<forall>i<length (producers s). p_holds (producers s ! i) = (mutex s = Some (Producer i))) \<and>
     (\<forall>j<length (consumers s). c_holds (consumers s ! j) = (mutex s = Some (Consumer j)))"

text \<open>
  What the wait loops establish for the bodies, and what a thread that left its loop has
  seen.
\<close>

definition guard_inv :: "config \<Rightarrow> system \<Rightarrow> bool" where
  "guard_inv cfg s \<longleftrightarrow>
     (\<forall>i<length (producers s). \<forall>d. producers s ! i = P_body d \<longrightarrow>
         current_items_num s \<noteq> BUFFER_SIZE cfg) \<and>
     (\<forall>j<length (consumers s). consumers s ! j = C_body \<longrightarrow>
         current_items_num s \<noteq> 0 \<or> consumed_items s = items_to_consume cfg)"

definition exit_inv :: "config \<Rightarrow> system \<Rightarrow> bool" where
  "exit_inv cfg s \<longleftrightarrow>
     (\<forall>i<length (producers s). producers s ! i = P_exit \<longrightarrow> items_to_produce cfg \<le> produced_items s) \<and>
     (\<forall>j<length (consumers s). consumers s ! j = C_exit \<longrightarrow> items_to_consume cfg \<le> consumed_items s)"

text \<open>
  Two states with the same shared data: buffer, cursors, counters and output.
\<close>

definition same_data :: "system \<Rightarrow> system \<Rightarrow> bool" where
  "same_data s s' \<longleftrightarrow>
     buffer s' = buffer s \<and> in_idx s' = in_idx s \<and> out_idx s' = out_idx s \<and>
     produced_items s' = produced_items s \<and> consumed_items s' = consumed_items s \<and>
     current_items_num s' = current_items_num s \<and> stdout s' = stdout s"

definition capacity_inv :: "config \<Rightarrow> system \<Rightarrow> bool" where
  "capacity_inv cfg s \<longleftrightarrow> 0 \<le> current_items_num s \<and> current_items_num s \<le> BUFFER_SIZE cfg"

definition coherent :: "config \<Rightarrow> system \<Rightarrow> bool" where
  "coherent cfg s \<longleftrightarrow>
     current_items_num s = produced_items s - consumed_items s \<and>
     in_idx s = produced_items s mod BUFFER_SIZE cfg \<and>
     out_idx s = consumed_items s mod BUFFER_SIZE cfg"

definition target_inv :: "config \<Rightarrow> system \<Rightarrow> bool" where
  "target_inv cfg s \<longleftrightarrow>
     0 \<le> consumed_items s \<and> 0 \<le> produced_items s \<and>
     produced_items s \<le> items_to_produce cfg \<and> consumed_items s \<le> items_to_consume cfg"

text \<open>
  The occupied region of the ring: the \<open>current_items_num\<close> slots from \<open>out\<close> on,
  around the end of the array. \<open>contents\<close> are the values in these slots, oldest first.
\<close>

definition region :: "config \<Rightarrow> system \<Rightarrow> int list" where
  "region cfg s =
     map (\<lambda>x. (out_idx s + int x) mod BUFFER_SIZE cfg) [0..<nat (current_items_num s)]"

definition contents :: "config \<Rightarrow> system \<Rightarrow> int list" where
  "contents cfg s = map (\<lambda>k. buffer s ! nat k) (region cfg s)"

definition buffer_inv :: "config \<Rightarrow> system \<Rightarrow> bool" where
  "buffer_inv cfg s \<longleftrightarrow>
     length (buffer s) = nat (BUFFER_SIZE cfg) \<and>
     (\<forall>k<nat (BUFFER_SIZE cfg). int k \<notin> set (region cfg s) \<longrightarrow> buffer s ! k = NEUTRAL_VALUE)"

text \<open>
  The slot index and the value of each line that the producers (the consumers) printed,
  in the order of printing; and the slot indices of the first \<open>n\<close> operations on the
  ring.
\<close>

fun prod_lines :: "event list \<Rightarrow> (int \<times> int) list" where
  "prod_lines [] = []"
| "prod_lines (Prod_line t i d # es) = (i, d) # prod_lines es"
| "prod_lines (e # es) = prod_lines es"

fun cons_lines :: "event list \<Rightarrow> (int \<times> int) list" where
  "cons_lines [] = []"
| "cons_lines (Cons_line t i d # es) = (i, d) # cons_lines es"
| "cons_lines (e # es) = cons_lines es"

definition ring_indices :: "config \<Rightarrow> int \<Rightarrow> int list" where
  "ring_indices cfg n = map (\<lambda>k. int k mod BUFFER_SIZE cfg) [0..<nat n]"

definition log_inv :: "config \<Rightarrow> system \<Rightarrow> bool" where
  "log_inv cfg s \<longleftrightarrow>
     map snd (prod_lines (stdout s)) = map snd (cons_lines (stdout s)) @ contents cfg s \<and>
     map fst (prod_lines (stdout s)) = ring_indices cfg (produced_items s) \<and>
     map fst (cons_lines (stdout s)) = ring_indices cfg (consumed_items s)"

definition invariant :: "config \<Rightarrow> system \<Rightarrow> bool" where
  "invariant cfg s \<longleftrightarrow>
     lock_inv s \<and> guard_inv cfg s \<and> exit_inv cfg s \<and> capacity_inv cfg s \<and>
     coherent cfg s \<and> target_inv cfg s \<and> buffer_inv cfg s \<and> log_inv cfg s"

text \<open>
All threads have left their loops.
\<close>

definition all_exited :: "system \<Rightarrow> bool" where
  "all_exited s \<longleftrightarrow>
     list_all (\<lambda>pc. pc = P_exit) (producers s) \<and> list_all (\<lambda>pc. pc = C_exit) (consumers s)"

subsection \<open>Some executions\<close>

text \<open>
  Steps of producer 1 and of consumers 1 and 2 (the threads 0 and 1 of their arrays).
\<close>

definition P0 :: "int \<Rightarrow> nat list \<Rightarrow> action" where "P0 r ws = Run (Producer 0) r ws"

definition C0 :: "action" where "C0 = Run (Consumer 0) 0 []"

definition C1 :: "action" where "C1 = Run (Consumer 1) 0 []"

definition C0w :: action where "C0w = Run (Consumer 0) 0 [0]"

text \<open>
  One producer and one consumer with the constants of the source: the state in which
  the producer is about to store its first item (42), the state after the store, and
  the states before and after the consumer takes the item.
\<close>

definition first_store_schedule :: "action list" where
  "first_store_schedule = [P0 0 [], P0 41 [], P0 0 [], P0 0 []]"

definition before_first_store :: system where
  "before_first_store =
     (init_shared source_config 1 1)\<lparr>mutex := Some (Producer 0), producers := [P_body 42]\<rparr>"

definition after_first_store :: system where
  "after_first_store = set_ppc 0 P_signal (produce source_config 0 42 before_first_store)"

definition first_consume_schedule :: "action list" where
  "first_consume_schedule = [P0 0 [], P0 0 [], C0, C0, C0]"

definition before_first_consume :: system where
  "before_first_consume =
     after_first_store\<lparr>mutex := Some (Consumer 0), producers := [P_while], consumers := [C_body]\<rparr>"

definition after_first_consume :: system where
  "after_first_consume = set_cpc 0 C_signal (consume source_config 0 before_first_consume)"

text \<open>
  One producer and two consumers with the constants of the source. Both consumers block
  on \<open>empty\<close> before the first item exists (\<open>both_wait\<close>). Then, for each item, the
  producer stores it and its signal unblocks consumer 1, which takes the item
  (\<open>handover\<close>) and blocks again (\<open>wait_again\<close>). After the last item both the
  producer and consumer 1 leave their loops (\<open>leave\<close>). \<open>lockstep_state k\<close> is the
  state after \<open>k\<close> items, with the threads at the given control points.
\<close>

fun lockstep_log :: "nat \<Rightarrow> event list" where
  "lockstep_log 0 = []"
| "lockstep_log (Suc k) =
     lockstep_log k @
       [Prod_line 1 (int k mod 10) 42, Buffer_dump ((replicate 10 0)[nat (int k mod 10) := 42]),
        Cons_line 1 (int k mod 10) 42, Buffer_dump (replicate 10 0)]"

definition lockstep_state :: "nat \<Rightarrow> ppc list \<Rightarrow> cpc list \<Rightarrow> system" where
  "lockstep_state k ps cs =
     \<lparr>buffer = replicate 10 0, in_idx = int k mod 10, out_idx = int k mod 10,
      produced_items = int k, consumed_items = int k, mutex = None, current_items_num = 0,
      producers = ps, consumers = cs, stdout = lockstep_log k\<rparr>"

definition handover :: "action list" where
  "handover = [P0 0 [], P0 41 [], P0 0 [], P0 0 [], P0 0 [], P0 0 [0], P0 0 [],
               C0, C0, C0, C0, C0]"

definition wait_again :: "action list" where
  "wait_again = [C0, C0, C0]"

definition both_wait :: "action list" where
  "both_wait = [C1, C1, C1, C0, C0, C0]"

definition leave :: "action list" where
  "leave = [C0, P0 0 []]"

definition starving_schedule :: "action list" where
  "starving_schedule =
     both_wait @ concat (replicate 99 (handover @ wait_again)) @ handover @ leave"

definition starved_state :: system where
  "starved_state = lockstep_state 100 [P_exit] [C_exit, C_waiting]"

text \<open>
  From there a spurious wakeup lets consumer 2 pass through its critical section after
  the target has been reached, and leave.
\<close>

definition late_consumer_schedule :: "action list" where
  "late_consumer_schedule = [Spurious (Consumer 1), C1, C1]"

definition late_consumer_state :: system where
  "late_consumer_state = (lockstep_state 100 [P_exit] [C_exit, C_body])\<lparr>mutex := Some (Consumer 1)\<rparr>"

definition late_exit_schedule :: "action list" where
  "late_exit_schedule = [C1, C1, C1, C1]"

text \<open>
  Capacity 3, target 5, one producer and one consumer: the producer fills the buffer
  and blocks on \<open>full\<close>; the consumer takes an item and unblocks it, twice; then the
  consumer drains the buffer.
\<close>

definition scenario_schedule :: "action list" where
  "scenario_schedule =
     concat (map (\<lambda>r. [P0 0 [], P0 r [], P0 0 [], P0 0 [], P0 0 [], P0 0 [], P0 0 []]) [10, 20, 30])
     @ [P0 0 [], P0 40 [], P0 0 [], P0 0 []]
     @ [C0, C0, C0, C0, C0w, C0]
     @ [P0 0 [], P0 0 [], P0 0 [], P0 0 [], P0 0 []]
     @ [P0 0 [], P0 50 [], P0 0 [], P0 0 []]
     @ [C0, C0, C0, C0, C0w, C0]
     @ [P0 0 [], P0 0 [], P0 0 [], P0 0 [], P0 0 [], P0 0 []]
     @ concat (replicate 3 [C0, C0, C0, C0, C0, C0])
     @ [C0]"

definition scenario_final :: system where
  "scenario_final =
     \<lparr>buffer = [0, 0, 0], in_idx = 2, out_idx = 2, produced_items = 5, consumed_items = 5,
      mutex = None, current_items_num = 0, producers = [P_exit], consumers = [C_exit],
      stdout =
        [Prod_line 1 0 11, Buffer_dump [11, 0, 0], Prod_line 1 1 21, Buffer_dump [11, 21, 0],
         Prod_line 1 2 31, Buffer_dump [11, 21, 31], Cons_line 1 0 11, Buffer_dump [0, 21, 31],
         Prod_line 1 0 41, Buffer_dump [41, 21, 31], Cons_line 1 1 21, Buffer_dump [41, 0, 31],
         Prod_line 1 1 51, Buffer_dump [41, 51, 31], Cons_line 1 2 31, Buffer_dump [41, 51, 0],
         Cons_line 1 0 41, Buffer_dump [0, 51, 0], Cons_line 1 1 51, Buffer_dump [0, 0, 0]]\<rparr>"

section \<open>Lemmas\<close>

subsection \<open>The cases of a step\<close>

text \<open>
  A step of a thread is one of the moves below; each invariant is proved move by move.
\<close>

lemma length_wake_producers [simp]: "length (wake_producers ws ps) = length ps"
  by (simp add: wake_producers_def)

lemma length_wake_consumers [simp]: "length (wake_consumers ws cs) = length cs"
  by (simp add: wake_consumers_def)

lemma wake_producers_nth:
  "i < length ps \<Longrightarrow> wake_producers ws ps ! i =
     (if i \<in> set ws then (case ps ! i of P_waiting d \<Rightarrow> P_wakeup d | pc \<Rightarrow> pc) else ps ! i)"
  by (simp add: wake_producers_def)

lemma wake_consumers_nth:
  "j < length cs \<Longrightarrow> wake_consumers ws cs ! j =
     (if j \<in> set ws then (case cs ! j of C_waiting \<Rightarrow> C_wakeup | pc \<Rightarrow> pc) else cs ! j)"
  by (simp add: wake_consumers_def)

lemma producer_cases [consumes 1, case_names P_while P_rand P_lock P_wait P_enter P_wakeup
    P_produce P_skip P_signal P_unlock]:
  assumes "producer cfg i r ws s = Some s'"
  obtains
    "i < length (producers s)" "producers s ! i = P_while"
      "s' = set_ppc i (if produced_items s < items_to_produce cfg then P_rand else P_exit) s"
  | "i < length (producers s)" "producers s ! i = P_rand" "0 \<le> r" "r \<le> 2147483647"
      "s' = set_ppc i (P_lock (c_rem r 99 + 1)) s"
  | d where "i < length (producers s)" "producers s ! i = P_lock d" "mutex s = None"
      "s' = set_ppc i (P_full_check d) (s\<lparr>mutex := Some (Producer i)\<rparr>)"
  | d where "i < length (producers s)" "producers s ! i = P_full_check d"
      "current_items_num s = BUFFER_SIZE cfg"
      "s' = set_ppc i (P_waiting d) (s\<lparr>mutex := None\<rparr>)"
  | d where "i < length (producers s)" "producers s ! i = P_full_check d"
      "current_items_num s \<noteq> BUFFER_SIZE cfg"
      "s' = set_ppc i (P_body d) s"
  | d where "i < length (producers s)" "producers s ! i = P_wakeup d" "mutex s = None"
      "s' = set_ppc i (P_full_check d) (s\<lparr>mutex := Some (Producer i)\<rparr>)"
  | d where "i < length (producers s)" "producers s ! i = P_body d"
      "produced_items s < items_to_produce cfg"
      "s' = set_ppc i P_signal (produce cfg i d s)"
  | d where "i < length (producers s)" "producers s ! i = P_body d"
      "\<not> produced_items s < items_to_produce cfg"
      "s' = set_ppc i P_signal s"
  | "i < length (producers s)" "producers s ! i = P_signal"
      "signal_choice ws (waiting_consumers s)"
      "s' = set_ppc i P_unlock (s\<lparr>consumers := wake_consumers ws (consumers s)\<rparr>)"
  | "i < length (producers s)" "producers s ! i = P_unlock"
      "s' = set_ppc i P_while (s\<lparr>mutex := None\<rparr>)"
  using assms unfolding producer_def
  by (cases "producers s ! i") (auto split: if_splits)

lemma consumer_cases [consumes 1, case_names C_while C_lock C_wait C_enter C_wakeup
    C_consume C_skip C_signal C_unlock]:
  assumes "consumer cfg j ws s = Some s'"
  obtains
    "j < length (consumers s)" "consumers s ! j = C_while"
      "s' = set_cpc j (if consumed_items s < items_to_consume cfg then C_lock else C_exit) s"
  | "j < length (consumers s)" "consumers s ! j = C_lock" "mutex s = None"
      "s' = set_cpc j C_empty_check (s\<lparr>mutex := Some (Consumer j)\<rparr>)"
  | "j < length (consumers s)" "consumers s ! j = C_empty_check"
      "current_items_num s = 0" "consumed_items s \<noteq> items_to_consume cfg"
      "s' = set_cpc j C_waiting (s\<lparr>mutex := None\<rparr>)"
  | "j < length (consumers s)" "consumers s ! j = C_empty_check"
      "current_items_num s \<noteq> 0 \<or> consumed_items s = items_to_consume cfg"
      "s' = set_cpc j C_body s"
  | "j < length (consumers s)" "consumers s ! j = C_wakeup" "mutex s = None"
      "s' = set_cpc j C_empty_check (s\<lparr>mutex := Some (Consumer j)\<rparr>)"
  | "j < length (consumers s)" "consumers s ! j = C_body"
      "consumed_items s < items_to_consume cfg"
      "s' = set_cpc j C_signal (consume cfg j s)"
  | "j < length (consumers s)" "consumers s ! j = C_body"
      "\<not> consumed_items s < items_to_consume cfg"
      "s' = set_cpc j C_signal s"
  | "j < length (consumers s)" "consumers s ! j = C_signal"
      "signal_choice ws (waiting_producers s)"
      "s' = set_cpc j C_unlock (s\<lparr>producers := wake_producers ws (producers s)\<rparr>)"
  | "j < length (consumers s)" "consumers s ! j = C_unlock"
      "s' = set_cpc j C_while (s\<lparr>mutex := None\<rparr>)"
  using assms unfolding consumer_def
  by (cases "consumers s ! j") (auto split: if_splits)

lemma spurious_cases [consumes 1, case_names Sp_producer Sp_consumer]:
  assumes "spurious_wakeup t s = Some s'"
  obtains
    i d where "t = Producer i" "i < length (producers s)" "producers s ! i = P_waiting d"
      "s' = set_ppc i (P_wakeup d) s"
  | j where "t = Consumer j" "j < length (consumers s)" "consumers s ! j = C_waiting"
      "s' = set_cpc j C_wakeup s"
  using assms unfolding spurious_wakeup_def
  by (auto split: tid.splits if_splits ppc.splits cpc.splits)

subsection \<open>Where a thread cannot move\<close>

text \<open>
  The model stops a thread only where the program does: in front of a mutex that
  another thread holds, inside \<open>pthread_cond_wait\<close>, and after its loop. Everywhere else
  the thread has a step, for some result of \<open>rand\<close> and some choice of the signal.
\<close>

lemma signal_choice_all: "signal_choice waiting waiting"
  by (simp add: signal_choice_def list_all_iff)

lemma producer_enabled:
  assumes "i < length (producers s)"
  shows "(\<exists>r ws s'. producer cfg i r ws s = Some s') \<longleftrightarrow>
    (case producers s ! i of
       P_lock d \<Rightarrow> mutex s = None
     | P_wakeup d \<Rightarrow> mutex s = None
     | P_waiting d \<Rightarrow> False
     | P_exit \<Rightarrow> False
     | _ \<Rightarrow> True)"
proof (cases "producers s ! i")
  case P_rand
  then have "producer cfg i 0 [] s \<noteq> None" using assms by (simp add: producer_def)
  with P_rand show ?thesis by auto
next
  case P_signal
  then have "producer cfg i 0 (waiting_consumers s) s \<noteq> None"
    using assms by (simp add: producer_def signal_choice_all)
  with P_signal show ?thesis by auto
qed (use assms in \<open>simp_all add: producer_def\<close>)

lemma consumer_enabled:
  assumes "j < length (consumers s)"
  shows "(\<exists>ws s'. consumer cfg j ws s = Some s') \<longleftrightarrow>
    (case consumers s ! j of
       C_lock \<Rightarrow> mutex s = None
     | C_wakeup \<Rightarrow> mutex s = None
     | C_waiting \<Rightarrow> False
     | C_exit \<Rightarrow> False
     | _ \<Rightarrow> True)"
proof (cases "consumers s ! j")
  case C_signal
  then have "consumer cfg j (waiting_producers s) s \<noteq> None"
    using assms by (simp add: consumer_def signal_choice_all)
  with C_signal show ?thesis by auto
qed (use assms in \<open>simp_all add: consumer_def\<close>)

subsection \<open>Mutual exclusion\<close>

lemma p_holds_wake:
  "i < length ps \<Longrightarrow> p_holds (wake_producers ws ps ! i) = p_holds (ps ! i)"
  by (simp add: wake_producers_nth split: ppc.splits)

lemma c_holds_wake:
  "j < length cs \<Longrightarrow> c_holds (wake_consumers ws cs ! j) = c_holds (cs ! j)"
  by (simp add: wake_consumers_nth split: cpc.splits)

lemma lock_inv_producer:
  assumes "lock_inv s" and "producer cfg i r ws s = Some s'"
  shows "lock_inv s'"
  using assms(2,1)
  by (cases rule: producer_cases)
     (auto simp: lock_inv_def set_ppc_def produce_def Let_def nth_list_update c_holds_wake)

lemma lock_inv_consumer:
  assumes "lock_inv s" and "consumer cfg j ws s = Some s'"
  shows "lock_inv s'"
  using assms(2,1)
  by (cases rule: consumer_cases)
     (auto simp: lock_inv_def set_cpc_def consume_def Let_def nth_list_update p_holds_wake)

lemma lock_inv_spurious:
  assumes "lock_inv s" and "spurious_wakeup t s = Some s'"
  shows "lock_inv s'"
  using assms(2,1)
  by (cases rule: spurious_cases)
     (auto simp: lock_inv_def set_ppc_def set_cpc_def nth_list_update)

lemma lock_inv_step:
  "lock_inv s \<Longrightarrow> step cfg a s = Some s' \<Longrightarrow> lock_inv s'"
  unfolding step_def
  by (auto split: action.splits tid.splits
      intro: lock_inv_producer lock_inv_consumer lock_inv_spurious)

lemma lock_inv_init: "lock_inv (init_shared cfg n m)"
  by (simp add: lock_inv_def init_shared_def)

subsection \<open>The shared data changes in the bodies only\<close>

text \<open>
  On operands that are not negative the remainder of C is \<open>mod\<close>. A step either leaves
  the shared data as it is, or it is the body of a producer that stores, or the body of
  a consumer that takes an item.
\<close>

lemma c_rem_nonneg: "0 \<le> a \<Longrightarrow> 0 < b \<Longrightarrow> c_rem a b = a mod b"
  by (simp add: c_rem_def signed_modulo_int_def sgn_if)

lemma step_data_cases [consumes 1, case_names same produce consume]:
  assumes "step cfg a s = Some s'"
  obtains
    "same_data s s'"
  | i r ws d where "a = Run (Producer i) r ws" "i < length (producers s)"
      "producers s ! i = P_body d" "produced_items s < items_to_produce cfg"
      "s' = set_ppc i P_signal (produce cfg i d s)"
  | j r ws where "a = Run (Consumer j) r ws" "j < length (consumers s)"
      "consumers s ! j = C_body" "consumed_items s < items_to_consume cfg"
      "s' = set_cpc j C_signal (consume cfg j s)"
proof (cases a)
  case (Run t r ws)
  show ?thesis
  proof (cases t)
    case (Producer i)
    with Run assms have "producer cfg i r ws s = Some s'" by (simp add: step_def)
    then show ?thesis
    proof (cases rule: producer_cases)
      case (P_produce d)
      with Run Producer that(2) show ?thesis by blast
    qed (use that(1) in \<open>simp_all add: same_data_def set_ppc_def\<close>)
  next
    case (Consumer j)
    with Run assms have "consumer cfg j ws s = Some s'" by (simp add: step_def)
    then show ?thesis
    proof (cases rule: consumer_cases)
      case C_consume
      with Run Consumer that(3) show ?thesis by blast
    qed (use that(1) in \<open>simp_all add: same_data_def set_cpc_def\<close>)
  qed
next
  case (Spurious t)
  with assms have "spurious_wakeup t s = Some s'" by (simp add: step_def)
  then show ?thesis
    by (cases rule: spurious_cases) (use that(1) in \<open>simp_all add: same_data_def set_ppc_def set_cpc_def\<close>)
qed

subsection \<open>Guards, counters and cursors\<close>

lemma wake_consumers_eq_body:
  "j < length cs \<Longrightarrow> wake_consumers ws cs ! j = C_body \<longleftrightarrow> cs ! j = C_body"
  by (simp add: wake_consumers_nth split: cpc.splits)

lemma wake_consumers_eq_exit:
  "j < length cs \<Longrightarrow> wake_consumers ws cs ! j = C_exit \<longleftrightarrow> cs ! j = C_exit"
  by (simp add: wake_consumers_nth split: cpc.splits)

lemma wake_producers_eq_body:
  "i < length ps \<Longrightarrow> wake_producers ws ps ! i = P_body d \<longleftrightarrow> ps ! i = P_body d"
  by (simp add: wake_producers_nth split: ppc.splits)

lemma wake_producers_eq_exit:
  "i < length ps \<Longrightarrow> wake_producers ws ps ! i = P_exit \<longleftrightarrow> ps ! i = P_exit"
  by (simp add: wake_producers_nth split: ppc.splits)

lemma no_body_while_producer_holds:
  assumes "lock_inv s" "i < length (producers s)" "p_holds (producers s ! i)"
  shows "\<forall>k<length (producers s). k \<noteq> i \<longrightarrow> \<not> p_holds (producers s ! k)"
    and "\<forall>j<length (consumers s). \<not> c_holds (consumers s ! j)"
  using assms by (auto simp: lock_inv_def)

lemma no_body_while_consumer_holds:
  assumes "lock_inv s" "j < length (consumers s)" "c_holds (consumers s ! j)"
  shows "\<forall>k<length (consumers s). k \<noteq> j \<longrightarrow> \<not> c_holds (consumers s ! k)"
    and "\<forall>i<length (producers s). \<not> p_holds (producers s ! i)"
  using assms by (auto simp: lock_inv_def)

lemma guard_inv_producer:
  assumes "producer cfg i r ws s = Some s'" "lock_inv s" "guard_inv cfg s"
  shows "guard_inv cfg s'"
  using assms
proof (cases rule: producer_cases)
  case (P_produce d)
  then have h: "p_holds (producers s ! i)" by simp
  from no_body_while_producer_holds[OF assms(2) P_produce(1) h] P_produce
  show ?thesis
    by (auto simp: guard_inv_def set_ppc_def produce_def Let_def nth_list_update)
qed (auto simp: guard_inv_def set_ppc_def nth_list_update wake_consumers_eq_body)

lemma guard_inv_consumer:
  assumes "consumer cfg j ws s = Some s'" "lock_inv s" "guard_inv cfg s"
  shows "guard_inv cfg s'"
  using assms
proof (cases rule: consumer_cases)
  case C_consume
  then have h: "c_holds (consumers s ! j)" by simp
  from no_body_while_consumer_holds[OF assms(2) C_consume(1) h] C_consume
  show ?thesis
    by (auto simp: guard_inv_def set_cpc_def consume_def Let_def nth_list_update)
qed (auto simp: guard_inv_def set_cpc_def nth_list_update wake_producers_eq_body)

lemma guard_inv_spurious:
  assumes "spurious_wakeup t s = Some s'" "guard_inv cfg s"
  shows "guard_inv cfg s'"
  using assms
  by (cases rule: spurious_cases)
     (auto simp: guard_inv_def set_ppc_def set_cpc_def nth_list_update)

lemma guard_inv_step:
  "step cfg a s = Some s' \<Longrightarrow> lock_inv s \<Longrightarrow> guard_inv cfg s \<Longrightarrow> guard_inv cfg s'"
  unfolding step_def
  by (auto split: action.splits tid.splits
      intro: guard_inv_producer guard_inv_consumer guard_inv_spurious)

lemma capacity_inv_step:
  assumes "step cfg a s = Some s'" "guard_inv cfg s" "capacity_inv cfg s"
  shows "capacity_inv cfg s'"
  using assms
  by (cases rule: step_data_cases)
     (auto simp: capacity_inv_def same_data_def guard_inv_def set_ppc_def set_cpc_def
        produce_def consume_def Let_def)

lemma coherent_step:
  assumes "step cfg a s = Some s'" "0 < BUFFER_SIZE cfg" "coherent cfg s"
  shows "coherent cfg s'"
  using assms
  by (cases rule: step_data_cases)
     (auto simp: coherent_def same_data_def set_ppc_def set_cpc_def
        produce_def consume_def Let_def c_rem_nonneg mod_add_left_eq)

lemma target_inv_step:
  assumes "step cfg a s = Some s'" "target_inv cfg s"
  shows "target_inv cfg s'"
  using assms
  by (cases rule: step_data_cases)
     (auto simp: target_inv_def same_data_def set_ppc_def set_cpc_def
        produce_def consume_def Let_def)

lemma counters_mono_step:
  assumes "step cfg a s = Some s'"
  shows "produced_items s \<le> produced_items s' \<and> consumed_items s \<le> consumed_items s'"
  using assms
  by (cases rule: step_data_cases)
     (auto simp: same_data_def set_ppc_def set_cpc_def produce_def consume_def Let_def)

lemma exit_inv_producer:
  assumes "producer cfg i r ws s = Some s'" "exit_inv cfg s"
  shows "exit_inv cfg s'"
  using assms
  by (cases rule: producer_cases)
     (auto simp: exit_inv_def set_ppc_def produce_def Let_def nth_list_update wake_consumers_eq_exit)

lemma exit_inv_consumer:
  assumes "consumer cfg j ws s = Some s'" "exit_inv cfg s"
  shows "exit_inv cfg s'"
  using assms
  by (cases rule: consumer_cases)
     (auto simp: exit_inv_def set_cpc_def consume_def Let_def nth_list_update wake_producers_eq_exit)

lemma exit_inv_spurious:
  assumes "spurious_wakeup t s = Some s'" "exit_inv cfg s"
  shows "exit_inv cfg s'"
  using assms
  by (cases rule: spurious_cases)
     (auto simp: exit_inv_def set_ppc_def set_cpc_def nth_list_update)

lemma exit_inv_step:
  "step cfg a s = Some s' \<Longrightarrow> exit_inv cfg s \<Longrightarrow> exit_inv cfg s'"
  unfolding step_def
  by (auto split: action.splits tid.splits
      intro: exit_inv_producer exit_inv_consumer exit_inv_spurious)

subsection \<open>The occupied region and the sentinel\<close>

lemma region_same: "same_data s s' \<Longrightarrow> region cfg s' = region cfg s"
  by (simp add: region_def same_data_def)

lemma region_produce:
  assumes "0 < BUFFER_SIZE cfg" "coherent cfg s" "0 \<le> current_items_num s"
  shows "region cfg (set_ppc i P_signal (produce cfg i d s)) = region cfg s @ [in_idx s]"
proof -
  have "nat (current_items_num s + 1) = Suc (nat (current_items_num s))"
    using assms(3) by simp
  moreover have "(out_idx s + current_items_num s) mod BUFFER_SIZE cfg = in_idx s"
    using assms(2) by (simp add: coherent_def mod_add_left_eq)
  ultimately show ?thesis
    using assms(3) by (simp add: region_def set_ppc_def produce_def Let_def)
qed

lemma region_consume:
  assumes "0 < BUFFER_SIZE cfg" "coherent cfg s" "0 < current_items_num s"
  shows "region cfg s = out_idx s # region cfg (set_cpc j C_signal (consume cfg j s))"
proof -
  have out: "0 \<le> out_idx s" "out_idx s < BUFFER_SIZE cfg"
    using assms(1,2) by (simp_all add: coherent_def)
  obtain c where c: "nat (current_items_num s) = Suc c" "nat (current_items_num s - 1) = c"
    using assms(3) by (metis Suc_nat_eq_nat_zadd1 add.commute diff_add_cancel zle_diff1_eq) 
  have upt: "[0..<Suc c] = 0 # map Suc [0..<c]"
    by (simp add: upt_conv_Cons map_Suc_upt del: upt_Suc)
  have shift: "((out_idx s + 1) mod BUFFER_SIZE cfg + int x) mod BUFFER_SIZE cfg
      = (out_idx s + int (Suc x)) mod BUFFER_SIZE cfg" for x
    by (simp add: mod_add_left_eq add.assoc)
  have "region cfg s = out_idx s # map (\<lambda>x. (out_idx s + int (Suc x)) mod BUFFER_SIZE cfg) [0..<c]"
    unfolding region_def c(1) upt using out by (simp add: comp_def)
  moreover have "region cfg (set_cpc j C_signal (consume cfg j s))
      = map (\<lambda>x. (out_idx s + int (Suc x)) mod BUFFER_SIZE cfg) [0..<c]"
    using out assms(1) c(2)
    by (simp add: region_def set_cpc_def consume_def Let_def c_rem_nonneg shift)
  ultimately show ?thesis by simp
qed

lemma region_in_range:
  "0 < BUFFER_SIZE cfg \<Longrightarrow> k \<in> set (region cfg s) \<Longrightarrow> 0 \<le> k \<and> k < BUFFER_SIZE cfg"
  by (auto simp: region_def)

lemma ring_offsets_distinct:
  fixes C :: int
  assumes "0 \<le> x" "x < C" "0 \<le> y" "y < C" "(a + x) mod C = (a + y) mod C"
  shows "x = y"
proof -
  have "C dvd (x - y)"
    using assms(5) by (simp add: mod_eq_dvd_iff)
  moreover have "\<bar>x - y\<bar> < C" using assms(1-4) by linarith
  ultimately show ?thesis
    using zdvd_not_zless[of "\<bar>x - y\<bar>" C] by (cases "x = y") auto
qed

lemma in_idx_not_in_region:
  assumes "0 < BUFFER_SIZE cfg" "coherent cfg s" "0 \<le> current_items_num s"
    "current_items_num s < BUFFER_SIZE cfg"
  shows "in_idx s \<notin> set (region cfg s)"
proof
  assume "in_idx s \<in> set (region cfg s)"
  then obtain x where x: "x < nat (current_items_num s)"
    "in_idx s = (out_idx s + int x) mod BUFFER_SIZE cfg"
    by (auto simp: region_def)
  have "(out_idx s + current_items_num s) mod BUFFER_SIZE cfg = in_idx s"
    using assms(2) by (simp add: coherent_def mod_add_left_eq)
  with x(2) have "(out_idx s + int x) mod BUFFER_SIZE cfg
      = (out_idx s + current_items_num s) mod BUFFER_SIZE cfg" by simp
  moreover have "0 \<le> int x" "int x < BUFFER_SIZE cfg"
    using x(1) assms(4) by simp_all
  ultimately have "int x = current_items_num s"
    using assms(3,4) by (blast intro: ring_offsets_distinct)
  with x(1) show False by simp
qed

lemma out_idx_not_in_rest:
  assumes "0 < BUFFER_SIZE cfg" "coherent cfg s" "0 < current_items_num s"
    "current_items_num s \<le> BUFFER_SIZE cfg"
  shows "out_idx s \<notin> set (region cfg (set_cpc j C_signal (consume cfg j s)))"
proof
  let ?C = "BUFFER_SIZE cfg"
  have out: "0 \<le> out_idx s" "out_idx s < ?C"
    using assms(1,2) by (simp_all add: coherent_def)
  assume "out_idx s \<in> set (region cfg (set_cpc j C_signal (consume cfg j s)))"
  then obtain x where x: "x < nat (current_items_num s - 1)"
    "out_idx s = ((out_idx s + 1) mod ?C + int x) mod ?C"
    using out assms(1)
    by (auto simp: region_def set_cpc_def consume_def Let_def c_rem_nonneg)
  then have "(out_idx s + 0) mod ?C = (out_idx s + (1 + int x)) mod ?C"
    using out by (simp add: mod_add_left_eq add.assoc)
  moreover have "0 \<le> 1 + int x" "1 + int x < ?C"
    using x(1) assms(4) by simp_all
  ultimately have "0 = 1 + int x"
    using assms(1) by (intro ring_offsets_distinct[of 0 ?C "1 + int x" "out_idx s"]) simp_all
  then show False by simp
qed

lemma buffer_inv_step:
  assumes "step cfg a s = Some s'" "0 < BUFFER_SIZE cfg" "coherent cfg s" "capacity_inv cfg s"
    "guard_inv cfg s" "buffer_inv cfg s"
  shows "buffer_inv cfg s'"
  using assms(1)
proof (cases rule: step_data_cases)
  case same
  then show ?thesis using assms(6) by (simp add: buffer_inv_def region_same) (simp add: same_data_def)
next
  case (produce i r ws d)
  have "0 \<le> current_items_num s" using assms(4) by (simp add: capacity_inv_def)
  from region_produce[OF assms(2,3) this, of i d]
  have r: "set (region cfg s') = insert (in_idx s) (set (region cfg s))"
    by (simp add: produce(5))
  have "0 \<le> in_idx s" using assms(2,3) by (simp add: coherent_def)
  then have ne: "int k \<noteq> in_idx s \<Longrightarrow> nat (in_idx s) \<noteq> k" for k by auto
  have b: "buffer s' = (buffer s)[nat (in_idx s) := d]"
    by (simp add: produce(5) set_ppc_def produce_def Let_def)
  show ?thesis
    using assms(6) ne unfolding buffer_inv_def r b by simp
next
  case (consume j r ws)
  have "0 < current_items_num s"
    using assms(4,5) consume by (auto simp: capacity_inv_def guard_inv_def)
  from region_consume[OF assms(2,3) this, of j]
  have r: "set (region cfg s) = insert (out_idx s) (set (region cfg s'))"
    by (simp add: consume(5))
  have "0 \<le> out_idx s" using assms(2,3) by (simp add: coherent_def)
  then have ne: "nat (out_idx s) \<noteq> k \<Longrightarrow> int k \<noteq> out_idx s" for k by auto
  have b: "buffer s' = (buffer s)[nat (out_idx s) := NEUTRAL_VALUE]"
    by (simp add: consume(5) set_cpc_def consume_def Let_def)
  show ?thesis
    unfolding buffer_inv_def b
  proof (intro conjI allI impI)
    show "length ((buffer s)[nat (out_idx s) := NEUTRAL_VALUE]) = nat (BUFFER_SIZE cfg)"
      using assms(6) by (simp add: buffer_inv_def)
  next
    fix k assume k: "k < nat (BUFFER_SIZE cfg)" "int k \<notin> set (region cfg s')"
    show "(buffer s)[nat (out_idx s) := NEUTRAL_VALUE] ! k = NEUTRAL_VALUE"
    proof (cases "nat (out_idx s) = k")
      case True
      then show ?thesis using k(1) assms(6) by (simp add: buffer_inv_def)
    next
      case False
      with ne k(2) r have "int k \<notin> set (region cfg s)" by simp
      with assms(6) k(1) False show ?thesis by (simp add: buffer_inv_def)
    qed
  qed
qed

subsection \<open>First in, first out\<close>

lemma prod_lines_append: "prod_lines (xs @ ys) = prod_lines xs @ prod_lines ys"
  by (induction xs rule: prod_lines.induct) simp_all

lemma cons_lines_append: "cons_lines (xs @ ys) = cons_lines xs @ cons_lines ys"
  by (induction xs rule: cons_lines.induct) simp_all

lemma ring_indices_Suc:
  "0 \<le> n \<Longrightarrow> ring_indices cfg (n + 1) = ring_indices cfg n @ [n mod BUFFER_SIZE cfg]"
proof -
  assume n: "0 \<le> n"
  then have "nat (n + 1) = Suc (nat n)" by simp
  with n show ?thesis by (simp add: ring_indices_def)
qed

lemma contents_same: "same_data s s' \<Longrightarrow> contents cfg s' = contents cfg s"
  by (simp add: contents_def region_same) (simp add: same_data_def)

lemma contents_produce:
  assumes "0 < BUFFER_SIZE cfg" "coherent cfg s" "0 \<le> current_items_num s"
    "current_items_num s < BUFFER_SIZE cfg" "length (buffer s) = nat (BUFFER_SIZE cfg)"
  shows "contents cfg (set_ppc i P_signal (produce cfg i d s)) = contents cfg s @ [d]"
proof -
  let ?s' = "set_ppc i P_signal (produce cfg i d s)"
  have b: "buffer ?s' = (buffer s)[nat (in_idx s) := d]"
    by (simp add: set_ppc_def produce_def Let_def)
  have inr: "0 \<le> in_idx s" "in_idx s < BUFFER_SIZE cfg"
    using assms(1,2) by (simp_all add: coherent_def)
  have "(buffer s)[nat (in_idx s) := d] ! nat k = buffer s ! nat k"
    if "k \<in> set (region cfg s)" for k
  proof -
    from that in_idx_not_in_region[OF assms(1-4)] have "k \<noteq> in_idx s" by auto
    moreover from that have "0 \<le> k" using region_in_range[OF assms(1)] by blast
    ultimately have "nat (in_idx s) \<noteq> nat k" using inr(1) by simp
    then show ?thesis by simp
  qed
  moreover have "(buffer s)[nat (in_idx s) := d] ! nat (in_idx s) = d"
    using inr assms(5) by simp
  ultimately show ?thesis
    unfolding contents_def region_produce[OF assms(1-3)] b by simp
qed

lemma contents_consume:
  assumes "0 < BUFFER_SIZE cfg" "coherent cfg s" "0 < current_items_num s"
    "current_items_num s \<le> BUFFER_SIZE cfg"
  shows "contents cfg s
    = buffer s ! nat (out_idx s) # contents cfg (set_cpc j C_signal (consume cfg j s))"
proof -
  let ?s' = "set_cpc j C_signal (consume cfg j s)"
  have b: "buffer ?s' = (buffer s)[nat (out_idx s) := NEUTRAL_VALUE]"
    by (simp add: set_cpc_def consume_def Let_def)
  have outr: "0 \<le> out_idx s"
    using assms(1,2) by (simp add: coherent_def)
  have "(buffer s)[nat (out_idx s) := NEUTRAL_VALUE] ! nat k = buffer s ! nat k"
    if "k \<in> set (region cfg ?s')" for k
  proof -
    from that out_idx_not_in_rest[OF assms(1-4), of j] have "k \<noteq> out_idx s" by auto
    moreover from that have "0 \<le> k" using region_in_range[OF assms(1)] by blast
    ultimately have "nat (out_idx s) \<noteq> nat k" using outr by simp
    then show ?thesis by simp
  qed
  then have "contents cfg ?s' = map (\<lambda>k. buffer s ! nat k) (region cfg ?s')"
    unfolding contents_def b by simp
  then show ?thesis
    by (simp add: contents_def region_consume[OF assms(1-3), of j])
qed

lemma log_inv_step:
  assumes "step cfg a s = Some s'" "0 < BUFFER_SIZE cfg" "coherent cfg s" "capacity_inv cfg s"
    "guard_inv cfg s" "target_inv cfg s" "buffer_inv cfg s" "log_inv cfg s"
  shows "log_inv cfg s'"
  using assms(1)
proof (cases rule: step_data_cases)
  case same
  then show ?thesis
    using assms(8) by (simp add: log_inv_def contents_same) (simp add: same_data_def)
next
  case (produce i r ws d)
  have cur: "0 \<le> current_items_num s" "current_items_num s < BUFFER_SIZE cfg"
    using assms(4,5) produce by (auto simp: capacity_inv_def guard_inv_def)
  have len: "length (buffer s) = nat (BUFFER_SIZE cfg)"
    using assms(7) by (simp add: buffer_inv_def)
  have p: "0 \<le> produced_items s" using assms(6) by (simp add: target_inv_def)
  have out: "stdout s' = stdout s @ [Prod_line (int i + 1) (in_idx s) d,
      Buffer_dump ((buffer s)[nat (in_idx s) := d])]"
    "produced_items s' = produced_items s + 1" "consumed_items s' = consumed_items s"
    by (simp_all add: produce(5) set_ppc_def produce_def Let_def)
  have "in_idx s = produced_items s mod BUFFER_SIZE cfg"
    using assms(3) by (simp add: coherent_def)
  then show ?thesis
    using assms(8) contents_produce[OF assms(2,3) cur len, of i d] ring_indices_Suc[OF p, of cfg]
    unfolding log_inv_def out
    by (simp add: prod_lines_append cons_lines_append produce(5))
next
  case (consume j r ws)
  have cur: "0 < current_items_num s" "current_items_num s \<le> BUFFER_SIZE cfg"
    using assms(4,5) consume by (auto simp: capacity_inv_def guard_inv_def)
  have c: "0 \<le> consumed_items s" using assms(6) by (simp add: target_inv_def)
  have out: "stdout s' = stdout s @ [Cons_line (int j + 1) (out_idx s) (buffer s ! nat (out_idx s)),
      Buffer_dump ((buffer s)[nat (out_idx s) := NEUTRAL_VALUE])]"
    "produced_items s' = produced_items s" "consumed_items s' = consumed_items s + 1"
    by (simp_all add: consume(5) set_cpc_def consume_def Let_def)
  have "out_idx s = consumed_items s mod BUFFER_SIZE cfg"
    using assms(3) by (simp add: coherent_def)
  then show ?thesis
    using assms(8) contents_consume[OF assms(2,3) cur, of j] ring_indices_Suc[OF c, of cfg]
    unfolding log_inv_def out
    by (simp add: prod_lines_append cons_lines_append consume(5))
qed

subsection \<open>All reachable states\<close>

lemma invariant_init:
  assumes "wf_config cfg"
  shows "invariant cfg (init_shared cfg n m)"
  using assms
  by (simp add: invariant_def wf_config_def init_shared_def lock_inv_def guard_inv_def
      exit_inv_def capacity_inv_def coherent_def target_inv_def buffer_inv_def log_inv_def
      contents_def region_def ring_indices_def)

lemma invariant_step:
  assumes "wf_config cfg" "invariant cfg s" "step cfg a s = Some s'"
  shows "invariant cfg s'"
proof -
  have C: "0 < BUFFER_SIZE cfg" using assms(1) by (simp add: wf_config_def)
  from assms(2) have i: "lock_inv s" "guard_inv cfg s" "exit_inv cfg s" "capacity_inv cfg s"
    "coherent cfg s" "target_inv cfg s" "buffer_inv cfg s" "log_inv cfg s"
    by (simp_all add: invariant_def)
  show ?thesis
    unfolding invariant_def
    using lock_inv_step[OF i(1) assms(3)] guard_inv_step[OF assms(3) i(1,2)]
      exit_inv_step[OF assms(3) i(3)] capacity_inv_step[OF assms(3) i(2,4)]
      coherent_step[OF assms(3) C i(5)] target_inv_step[OF assms(3) i(6)]
      buffer_inv_step[OF assms(3) C i(5,4,2,7)] log_inv_step[OF assms(3) C i(5,4,2,6,7,8)]
    by simp
qed

lemma reachable_invariant:
  assumes "wf_config cfg" "reachable cfg n m s"
  shows "invariant cfg s"
  using assms(2)
  by (induction rule: reachable.induct) (auto intro: invariant_init invariant_step assms(1))

lemma reachable_lengths:
  assumes "reachable cfg n m s"
  shows "length (producers s) = n \<and> length (consumers s) = m"
  using assms
proof (induction rule: reachable.induct)
  case reachable_init
  show ?case by (simp add: init_shared_def)
next
  case (reachable_step s a s')
  from reachable_step(2) have "length (producers s') = length (producers s)
      \<and> length (consumers s') = length (consumers s)"
    unfolding step_def
    by (auto split: action.splits tid.splits elim!: producer_cases consumer_cases spurious_cases
        simp: set_ppc_def set_cpc_def produce_def consume_def Let_def)
  with reachable_step(3) show ?case by simp
qed

subsection \<open>The executions\<close>

text \<open>
  The long execution is evaluated one item at a time, for an arbitrary number of items
  so far, and the rounds are put together by induction.
\<close>

lemma run_append:
  "run cfg (xs @ ys) s = (case run cfg xs s of None \<Rightarrow> None | Some s' \<Rightarrow> run cfg ys s')"
  by (induction xs arbitrary: s) (auto split: option.splits)

lemma replicate_update_same: "(replicate n x)[i := x] = replicate n x"
proof (cases "i < n")
  case True
  then have "(replicate n x)[i := replicate n x ! i] = replicate n x"
    by (simp only: list_update_id)
  with True show ?thesis by simp
next
  case False
  then show ?thesis by (simp add: list_update_beyond)
qed

lemma c_rem_41: "c_rem 41 99 = 41"
  by (simp add: c_rem_def signed_modulo_int_def)

lemma handover_run:
  assumes "k < 100"
  shows "run source_config handover (lockstep_state k [P_while] [C_waiting, C_waiting])
    = Some (lockstep_state (Suc k) [P_while] [C_while, C_waiting])"
proof -
  have i: "nat (int k mod 10) < 10" by simp
  have m: "(int k mod 10 + 1) mod 10 = (1 + int k) mod 10"
    "(1 + int k mod 10) mod 10 = (1 + int k) mod 10"
    by (simp_all add: mod_add_left_eq mod_add_right_eq add.commute)
  show ?thesis
    using assms i
    by (simp add: handover_def P0_def C0_def lockstep_state_def step_def producer_def consumer_def
        source_config_def set_ppc_def set_cpc_def produce_def consume_def Let_def
        signal_choice_def waiting_consumers_def waiting_producers_def wake_consumers_def
        wake_producers_def c_rem_41 c_rem_nonneg NEUTRAL_VALUE_def replicate_update_same m)
qed

lemma wait_again_run:
  assumes "k < 100"
  shows "run source_config wait_again (lockstep_state k [P_while] [C_while, C_waiting])
    = Some (lockstep_state k [P_while] [C_waiting, C_waiting])"
  using assms
  by (simp add: wait_again_def C0_def lockstep_state_def step_def consumer_def
      source_config_def set_cpc_def)

lemma lockstep_rounds:
  "k \<le> 99 \<Longrightarrow>
   run source_config (concat (replicate k (handover @ wait_again)))
       (lockstep_state 0 [P_while] [C_waiting, C_waiting])
     = Some (lockstep_state k [P_while] [C_waiting, C_waiting])"
proof (induction k)
  case 0
  show ?case by simp
next
  case (Suc k)
  have "replicate (Suc k) (handover @ wait_again)
      = replicate k (handover @ wait_again) @ [handover @ wait_again]"
    by (simp add: replicate_append_same)
  then have "concat (replicate (Suc k) (handover @ wait_again))
      = concat (replicate k (handover @ wait_again)) @ handover @ wait_again"
    by (simp del: replicate_Suc)
  with Suc show ?case
    by (simp add: run_append handover_run wait_again_run del: replicate_Suc)
qed

lemma starving_run:
  "run source_config starving_schedule (init_shared source_config 1 2)
     = Some (lockstep_state 100 [P_exit] [C_exit, C_waiting])"
proof -
  have a: "run source_config both_wait (init_shared source_config 1 2)
      = Some (lockstep_state 0 [P_while] [C_waiting, C_waiting])"
    by (simp add: both_wait_def C0_def C1_def lockstep_state_def init_shared_def step_def
        consumer_def source_config_def set_cpc_def NEUTRAL_VALUE_def numeral_2_eq_2)
  have b: "run source_config (concat (replicate 99 (handover @ wait_again)))
       (lockstep_state 0 [P_while] [C_waiting, C_waiting])
     = Some (lockstep_state 99 [P_while] [C_waiting, C_waiting])"
    by (rule lockstep_rounds) simp
  have c: "run source_config handover (lockstep_state 99 [P_while] [C_waiting, C_waiting])
      = Some (lockstep_state 100 [P_while] [C_while, C_waiting])"
    using handover_run[of 99] by simp
  have d: "run source_config leave (lockstep_state 100 [P_while] [C_while, C_waiting])
      = Some (lockstep_state 100 [P_exit] [C_exit, C_waiting])"
    by (simp add: leave_def C0_def P0_def lockstep_state_def step_def producer_def
        consumer_def source_config_def set_cpc_def set_ppc_def)
  show ?thesis
    by (simp only: starving_schedule_def run_append a b c d option.case)
qed

lemma wf_source_config: "wf_config source_config"
  by (simp add: wf_config_def source_config_def)

lemma wf_scenario_config: "wf_config scenario_config"
  by (simp add: wf_config_def scenario_config_def)

lemma run_reachable:
  "reachable cfg n m s \<Longrightarrow> run cfg as s = Some s' \<Longrightarrow> reachable cfg n m s'"
proof (induction as arbitrary: s)
  case Nil
  then show ?case by simp
next
  case (Cons a as)
  then show ?case
    by (auto split: option.splits intro: reachable_step)
qed

lemma replicate_3: "replicate 3 x = [x, x, x]"
  by (simp add: numeral_3_eq_3)

lemma c_rem_small:
  "c_rem 10 99 = 10" "c_rem 20 99 = 20" "c_rem 30 99 = 30" "c_rem 40 99 = 40" "c_rem 50 99 = 50"
  "c_rem 1 3 = 1" "c_rem 2 3 = 2" "c_rem 3 3 = 0" "c_rem 1 10 = 1"
  by (simp_all add: c_rem_def signed_modulo_int_def)

lemma scenario_run:
  "run scenario_config scenario_schedule (init_shared scenario_config 1 1) = Some scenario_final"
  by (simp add: scenario_schedule_def scenario_final_def P0_def C0_def C0w_def init_shared_def
      step_def producer_def consumer_def scenario_config_def set_ppc_def set_cpc_def
      produce_def consume_def Let_def signal_choice_def waiting_consumers_def
      waiting_producers_def wake_consumers_def wake_producers_def c_rem_small
      NEUTRAL_VALUE_def replicate_3)

lemma scenario_final_reachable: "reachable scenario_config 1 1 scenario_final"
  using run_reachable[OF reachable_init scenario_run] .

lemma before_first_store_reachable: "reachable source_config 1 1 before_first_store"
proof -
  have "run source_config first_store_schedule (init_shared source_config 1 1)
      = Some before_first_store"
    by (simp add: first_store_schedule_def before_first_store_def P0_def init_shared_def
        step_def producer_def source_config_def set_ppc_def c_rem_41)
  from run_reachable[OF reachable_init this] show ?thesis .
qed

lemma first_store_step:
  "step source_config (P0 0 []) before_first_store = Some after_first_store"
  by (simp add: after_first_store_def before_first_store_def P0_def init_shared_def
      step_def producer_def source_config_def)

lemma after_first_store_reachable: "reachable source_config 1 1 after_first_store"
  using reachable_step[OF before_first_store_reachable first_store_step] .

lemma before_first_consume_reachable: "reachable source_config 1 1 before_first_consume"
proof -
  have "run source_config first_consume_schedule after_first_store = Some before_first_consume"
    by (simp add: first_consume_schedule_def before_first_consume_def after_first_store_def
        before_first_store_def P0_def C0_def init_shared_def step_def producer_def consumer_def
        source_config_def set_ppc_def set_cpc_def produce_def Let_def signal_choice_def
        waiting_consumers_def wake_consumers_def)
  from run_reachable[OF after_first_store_reachable this] show ?thesis .
qed

lemma first_consume_step:
  "step source_config C0 before_first_consume = Some after_first_consume"
  by (simp add: after_first_consume_def before_first_consume_def after_first_store_def
      before_first_store_def C0_def init_shared_def step_def consumer_def source_config_def
      set_ppc_def produce_def Let_def)

lemma starved_state_reachable: "reachable source_config 1 2 starved_state"
  unfolding starved_state_def using run_reachable[OF reachable_init starving_run] .

lemma late_consumer_reachable: "reachable source_config 1 2 late_consumer_state"
proof -
  have "run source_config late_consumer_schedule starved_state = Some late_consumer_state"
    by (simp add: late_consumer_schedule_def late_consumer_state_def starved_state_def C1_def
        lockstep_state_def step_def spurious_wakeup_def consumer_def source_config_def
        set_cpc_def)
  from run_reachable[OF starved_state_reachable this] show ?thesis .
qed

lemma late_consumer_step:
  "step source_config C1 late_consumer_state
     = Some ((lockstep_state 100 [P_exit] [C_exit, C_signal])\<lparr>mutex := Some (Consumer 1)\<rparr>)"
  by (simp add: late_consumer_state_def C1_def lockstep_state_def step_def consumer_def
      source_config_def set_cpc_def)

lemma all_exited_reachable:
  "reachable source_config 1 2 (lockstep_state 100 [P_exit] [C_exit, C_exit])"
proof -
  have "run source_config late_exit_schedule late_consumer_state
      = Some (lockstep_state 100 [P_exit] [C_exit, C_exit])"
    by (simp add: late_exit_schedule_def late_consumer_state_def C1_def
        lockstep_state_def step_def consumer_def source_config_def
        set_cpc_def signal_choice_def waiting_producers_def wake_producers_def)
  from run_reachable[OF late_consumer_reachable this] show ?thesis .
qed

subsection \<open>Start-up\<close>

text \<open>
  A rejected command line prints one message and ends the process with code 1 before
  any thread is created. When both values that \<open>strtol\<close> returns fit an \<open>int\<close>, the check
  accepts exactly the arguments that were read completely and are positive.
\<close>

lemma main_rejected:
  "parse_arguments argv = Inl d \<Longrightarrow> main argv env = [Stderr d, Exit 1]"
  by (simp add: main_def)

lemma parse_arguments_arity:
  "length argv \<noteq> 3 \<Longrightarrow> \<exists>u. parse_arguments argv = Inl (Usage u)"
  by (simp add: parse_arguments_def)

lemma int_of_long_in_range:
  assumes "- 2147483648 \<le> v" and "v \<le> 2147483647"
  shows "int_of_long v = v"
proof -
  have "(v + 2147483648) mod 4294967296 = v + 2147483648"
    using assms by (intro mod_pos_pos_trivial) simp_all
  then show ?thesis by (simp add: int_of_long_def)
qed

lemma parse_arguments_in_range:
  assumes "length argv = 3"
    and "strtol (argv ! 1) = (v1, e1)" and "strtol (argv ! 2) = (v2, e2)"
    and "- 2147483648 \<le> v1" and "v1 \<le> 2147483647"
    and "- 2147483648 \<le> v2" and "v2 \<le> 2147483647"
  shows "parse_arguments argv =
    (if e1 = [] \<and> 0 < v1 \<and> e2 = [] \<and> 0 < v2 then Inr (v1, v2) else Inl Invalid_number)"
  using assms(1-3) int_of_long_in_range[OF assms(4,5)] int_of_long_in_range[OF assms(6,7)]
  by (auto simp: parse_arguments_def)

lemma exit_conditions_conservation:
  assumes "wf_config cfg" and "reachable cfg n m s"
    and "\<not> produced_items s < items_to_produce cfg"
    and "\<not> consumed_items s < items_to_consume cfg"
    and "items_to_produce cfg = items_to_consume cfg"
  shows "produced_items s = items_to_produce cfg \<and> consumed_items s = items_to_consume cfg \<and>
    current_items_num s = 0"
proof -
  from reachable_invariant[OF assms(1,2)]
  have "target_inv cfg s" "coherent cfg s" by (simp_all add: invariant_def)
  with assms(3-5) show ?thesis by (simp add: target_inv_def coherent_def)
qed

subsection \<open>Completed executions of the scenario\<close>

text \<open>
  What the invariants say about a state of the scenario with capacity 3 and target 5 in
  which both threads have left their loops.
\<close>

lemma scenario_completed_states:
  assumes "reachable scenario_config 1 1 s" and "all_exited s"
  shows "map fst (prod_lines (stdout s)) = [0, 1, 2, 0, 1] \<and>
    map fst (cons_lines (stdout s)) = [0, 1, 2, 0, 1] \<and>
    map snd (cons_lines (stdout s)) = map snd (prod_lines (stdout s)) \<and>
    buffer s = [NEUTRAL_VALUE, NEUTRAL_VALUE, NEUTRAL_VALUE] \<and>
    produced_items s = 5 \<and> consumed_items s = 5"
proof -
  from reachable_invariant[OF wf_scenario_config assms(1)]
  have i: "exit_inv scenario_config s" "target_inv scenario_config s"
    "coherent scenario_config s" "buffer_inv scenario_config s" "log_inv scenario_config s"
    by (simp_all add: invariant_def)
  from reachable_lengths[OF assms(1)]
  have len: "0 < length (producers s)" "0 < length (consumers s)" by simp_all
  with assms(2) have "producers s ! 0 = P_exit" "consumers s ! 0 = C_exit"
    by (simp_all add: all_exited_def list_all_length)
  with i(1) len have "5 \<le> produced_items s" "5 \<le> consumed_items s"
    by (auto simp: exit_inv_def scenario_config_def)
  with i(2,3) have c: "produced_items s = 5" "consumed_items s = 5" "current_items_num s = 0"
    by (simp_all add: target_inv_def coherent_def scenario_config_def)
  have idx: "ring_indices scenario_config 5 = [0, 1, 2, 0, 1]"
    by (simp add: ring_indices_def scenario_config_def eval_nat_numeral)
  have "region scenario_config s = []" using c(3) by (simp add: region_def)
  with i(4) have "length (buffer s) = 3" "\<forall>k<3. buffer s ! k = NEUTRAL_VALUE"
    by (simp_all add: buffer_inv_def scenario_config_def)
  then have "buffer s = [NEUTRAL_VALUE, NEUTRAL_VALUE, NEUTRAL_VALUE]"
    by (simp add: list_eq_iff_nth_eq eval_nat_numeral less_Suc_eq)
  moreover have "contents scenario_config s = []" using c(3) by (simp add: contents_def region_def)
  ultimately show ?thesis
    using i(5) c idx by (simp add: log_inv_def)
qed

section \<open>The claims\<close>

text \<open>
  C1 (capacity invariant). In every state that the program reaches from the initial
  state, with any number of producers and consumers and under any interleaving
  (spurious wakeups included), \<open>current_items_num\<close> is at least 0 and at most 10.
\<close>

theorem capacity_invariant:
  assumes "reachable source_config n m s"
  shows "0 \<le> current_items_num s \<and> current_items_num s \<le> 10"
proof -
  from reachable_invariant[OF wf_source_config assms] have "capacity_inv source_config s"
    by (simp add: invariant_def)
  then show ?thesis by (simp add: capacity_inv_def source_config_def)
qed

theorem capacity_invariant_witness:
  "current_items_num after_first_store = 1 \<and>
   0 \<le> current_items_num after_first_store \<and> current_items_num after_first_store \<le> 10"
  using capacity_invariant[OF after_first_store_reachable]
  by (simp add: after_first_store_def before_first_store_def set_ppc_def produce_def Let_def
      init_shared_def)

text \<open>
  C2 (conservation at completion). When at least one producer and one consumer were
  started, as \<open>main\<close> ensures, and every thread has left its loop, then
  \<open>produced_items\<close> and \<open>consumed_items\<close> are both 100 and \<open>current_items_num\<close> is 0.
\<close>

theorem conservation_at_completion:
  assumes "reachable source_config n m s" and "0 < n" and "0 < m" and "all_exited s"
  shows "produced_items s = 100 \<and> consumed_items s = 100 \<and> current_items_num s = 0"
proof -
  from reachable_invariant[OF wf_source_config assms(1)]
  have i: "exit_inv source_config s" "target_inv source_config s" "coherent source_config s"
    by (simp_all add: invariant_def)
  from reachable_lengths[OF assms(1)] assms(2,3)
  have len: "0 < length (producers s)" "0 < length (consumers s)" by simp_all
  with assms(4) have "producers s ! 0 = P_exit" "consumers s ! 0 = C_exit"
    by (simp_all add: all_exited_def list_all_length)
  with i(1) len have "100 \<le> produced_items s" "100 \<le> consumed_items s"
    by (auto simp: exit_inv_def source_config_def)
  with i(2,3) show ?thesis
    by (simp add: target_inv_def coherent_def source_config_def)
qed

theorem conservation_at_completion_witness:
  "all_exited (lockstep_state 100 [P_exit] [C_exit, C_exit]) \<and>
   produced_items (lockstep_state 100 [P_exit] [C_exit, C_exit]) = 100 \<and>
   consumed_items (lockstep_state 100 [P_exit] [C_exit, C_exit]) = 100 \<and>
   current_items_num (lockstep_state 100 [P_exit] [C_exit, C_exit]) = 0"
proof -
  have e: "all_exited (lockstep_state 100 [P_exit] [C_exit, C_exit])"
    by (simp add: all_exited_def lockstep_state_def)
  have "(0::nat) < 1" "(0::nat) < 2" by simp_all
  from conservation_at_completion[OF all_exited_reachable this e] e show ?thesis by simp
qed

text \<open>
  C3 (initialisation failure). The claim that the process exits with code 1 and starts
  no worker fails on the code. When \<open>pthread_mutex_init\<close> returns 12 (ENOMEM) and every
  other call succeeds, \<open>main\<close> prints the error, creates and joins both workers, and
  exits with code 0.
\<close>

theorem init_failure_continues:
  "main [''prog'', ''1'', ''1''] (all_succeed\<lparr>rc_mutex_init := 12\<rparr>)
     = [Stderr (Error_mutex_init 12), Create (Producer 0), Create (Consumer 0),
        Join (Producer 0), Join (Consumer 0), Destroy, Exit 0]"
  by (simp add: main_def parse_arguments_def strtol_def isspace_def isdigit_def digit_value_def
      LONG_MAX_def LONG_MIN_def int_of_long_def all_succeed_def init_shared_errors_def)

text \<open>
  C4 (validation of the command line). The claim that only positive counts pass the
  check fails on the code. \<open>strtol\<close> reads \<open>-4294967295\<close> completely; the conversion of
  this value to \<open>int\<close> is 1, so the check passes and \<open>main\<close> starts one producer and
  one consumer.
\<close>

theorem negative_count_accepted:
  "strtol ''-4294967295'' = (- 4294967295, []) \<and>
   parse_arguments [''prog'', ''-4294967295'', ''1''] = Inr (1, 1) \<and>
   main [''prog'', ''-4294967295'', ''1''] all_succeed
     = [Create (Producer 0), Create (Consumer 0), Join (Producer 0), Join (Consumer 0),
        Destroy, Exit 0]"
  by (simp add: main_def parse_arguments_def strtol_def isspace_def isdigit_def digit_value_def
      LONG_MAX_def LONG_MIN_def int_of_long_def all_succeed_def init_shared_errors_def)

theorem negative_count_accepted_witness:
  "fst (strtol ''-4294967295'') < 0 \<and> snd (strtol ''-4294967295'') = [] \<and>
   int_of_long (fst (strtol ''-4294967295'')) = 1"
  using negative_count_accepted by (simp add: int_of_long_def)

text \<open>
  C5 (no store into a full buffer). A step of a producer that stores into the buffer
  (it changes the buffer, and it prints its line) is taken only in a state with
  \<open>current_items_num < 10\<close>; and whenever a producer stands before the guarded store of
  lines 105-106, \<open>current_items_num < 10\<close>.
\<close>

theorem no_store_when_full:
  assumes "reachable source_config n m s"
  shows "(step source_config (Run (Producer i) r ws) s = Some s' \<and>
       (buffer s' \<noteq> buffer s \<or> stdout s' \<noteq> stdout s) \<longrightarrow> current_items_num s < 10) \<and>
    (k < length (producers s) \<and> producers s ! k = P_body d \<longrightarrow> current_items_num s < 10)"
proof (intro conjI impI)
  from reachable_invariant[OF wf_source_config assms]
  have inv: "capacity_inv source_config s" "guard_inv source_config s"
    by (simp_all add: invariant_def)
  {
    assume "k < length (producers s) \<and> producers s ! k = P_body d"
    with inv show "current_items_num s < 10"
      by (auto simp: capacity_inv_def guard_inv_def source_config_def)
  }
  assume h: "step source_config (Run (Producer i) r ws) s = Some s' \<and>
    (buffer s' \<noteq> buffer s \<or> stdout s' \<noteq> stdout s)"
  then have "step source_config (Run (Producer i) r ws) s = Some s'" by simp
  then show "current_items_num s < 10"
  proof (cases rule: step_data_cases)
    case same
    with h show ?thesis by (simp add: same_data_def)
  next
    case (produce i' r' ws' d')
    with inv show ?thesis
      by (auto simp: capacity_inv_def guard_inv_def source_config_def)
  next
    case (consume j r' ws')
    then show ?thesis by simp
  qed
qed

theorem no_store_when_full_witness:
  "buffer after_first_store = [42, 0, 0, 0, 0, 0, 0, 0, 0, 0] \<and>
   buffer before_first_store = [0, 0, 0, 0, 0, 0, 0, 0, 0, 0] \<and>
   current_items_num before_first_store < 10"
proof -
  have b: "buffer after_first_store = [42, 0, 0, 0, 0, 0, 0, 0, 0, 0]"
    "buffer before_first_store = [0, 0, 0, 0, 0, 0, 0, 0, 0, 0]"
    by (simp_all add: after_first_store_def before_first_store_def set_ppc_def produce_def
        Let_def init_shared_def source_config_def NEUTRAL_VALUE_def eval_nat_numeral)
  then have "buffer after_first_store \<noteq> buffer before_first_store
      \<or> stdout after_first_store \<noteq> stdout before_first_store" by simp
  with no_store_when_full[OF before_first_store_reachable, of 0 0 "[]" after_first_store 0 42]
    first_store_step[unfolded P0_def] b
  show ?thesis by simp
qed

text \<open>
  C6 (sentinel outside the occupied region). In every reachable state each slot
  outside the occupied region of the ring holds \<open>NEUTRAL_VALUE\<close>. A step of a consumer
  that consumes leaves \<open>NEUTRAL_VALUE\<close> in the slot it read. A slot that holds
  \<open>NEUTRAL_VALUE\<close> keeps it across every step but the store of a producer whose write
  cursor is that slot.
\<close>

theorem sentinel_outside_region:
  assumes "reachable source_config n m s"
  shows "(\<forall>k<10. int k \<notin> set (region source_config s) \<longrightarrow> buffer s ! k = NEUTRAL_VALUE) \<and>
    (step source_config (Run (Consumer j) r ws) s = Some s' \<and>
       consumed_items s' \<noteq> consumed_items s \<longrightarrow>
         buffer s' ! nat (out_idx s) = NEUTRAL_VALUE) \<and>
    (step source_config a s = Some t \<and> q < 10 \<and>
       buffer s ! q = NEUTRAL_VALUE \<and> buffer t ! q \<noteq> NEUTRAL_VALUE \<longrightarrow>
         (\<exists>i x ws' d. a = Run (Producer i) x ws' \<and> producers s ! i = P_body d \<and>
            nat (in_idx s) = q))"
proof (intro conjI impI)
  from reachable_invariant[OF wf_source_config assms]
  have i: "buffer_inv source_config s" "coherent source_config s"
    by (simp_all add: invariant_def)
  have len: "length (buffer s) = 10"
    using i(1) by (simp add: buffer_inv_def source_config_def)
  show "\<forall>k<10. int k \<notin> set (region source_config s) \<longrightarrow> buffer s ! k = NEUTRAL_VALUE"
    using i(1) by (simp add: buffer_inv_def source_config_def)
  {
    assume h: "step source_config (Run (Consumer j) r ws) s = Some s' \<and>
      consumed_items s' \<noteq> consumed_items s"
    then have "step source_config (Run (Consumer j) r ws) s = Some s'" by simp
    then show "buffer s' ! nat (out_idx s) = NEUTRAL_VALUE"
    proof (cases rule: step_data_cases)
      case same
      with h show ?thesis by (simp add: same_data_def)
    next
      case (produce i' r' ws' d)
      then show ?thesis by simp
    next
      case (consume j' r' ws')
      have "nat (out_idx s) < 10"
        using i(2) by (simp add: coherent_def source_config_def)
      with len show ?thesis
        by (simp add: consume(5) set_cpc_def consume_def Let_def)
    qed
  }
  {
    assume h: "step source_config a s = Some t \<and> q < 10 \<and>
       buffer s ! q = NEUTRAL_VALUE \<and> buffer t ! q \<noteq> NEUTRAL_VALUE"
    then have "step source_config a s = Some t" by simp
    then show "\<exists>i x ws' d. a = Run (Producer i) x ws' \<and> producers s ! i = P_body d \<and>
            nat (in_idx s) = q"
    proof (cases rule: step_data_cases)
      case same
      with h show ?thesis by (simp add: same_data_def)
    next
      case (produce i' r' ws' d)
      with h have "nat (in_idx s) = q"
        by (cases "nat (in_idx s) = q") (simp_all add: set_ppc_def produce_def Let_def)
      with produce show ?thesis by blast
    next
      case (consume j' r' ws')
      from h have q: "q < 10" "buffer s ! q = NEUTRAL_VALUE" "buffer t ! q \<noteq> NEUTRAL_VALUE"
        by simp_all
      have "buffer t = (buffer s)[nat (out_idx s) := NEUTRAL_VALUE]"
        by (simp add: consume(5) set_cpc_def consume_def Let_def)
      with q len have False by (cases "nat (out_idx s) = q") simp_all
      then show ?thesis ..
    qed
  }
qed

theorem sentinel_outside_region_witness:
  "buffer before_first_consume ! 0 = 42 \<and> buffer before_first_consume ! 1 = NEUTRAL_VALUE \<and>
   buffer after_first_consume ! nat (out_idx before_first_consume) = NEUTRAL_VALUE \<and>
   (\<exists>i x ws' d. P0 0 [] = Run (Producer i) x ws' \<and>
      producers before_first_store ! i = P_body d \<and> nat (in_idx before_first_store) = 0)"
proof -
  have r: "region source_config before_first_consume = [0]"
    by (simp add: region_def before_first_consume_def after_first_store_def
        before_first_store_def set_ppc_def produce_def Let_def init_shared_def source_config_def)
  have c: "consumed_items after_first_consume \<noteq> consumed_items before_first_consume"
    by (simp add: after_first_consume_def set_cpc_def consume_def Let_def)
  have b: "buffer before_first_store ! 0 = NEUTRAL_VALUE"
    "buffer after_first_store ! 0 \<noteq> NEUTRAL_VALUE" "buffer before_first_consume ! 0 = 42"
    by (simp_all add: before_first_consume_def after_first_store_def before_first_store_def
        set_ppc_def produce_def Let_def init_shared_def source_config_def NEUTRAL_VALUE_def
        eval_nat_numeral)
  have one: "(1::nat) < 10" "int 1 \<notin> set (region source_config before_first_consume)"
    "(0::nat) < 10"
    by (simp_all add: r)
  from sentinel_outside_region[OF before_first_consume_reachable,
      of 0 0 "[]" after_first_consume C0 after_first_consume 0]
    first_consume_step[unfolded C0_def] c one
  have "buffer before_first_consume ! 1 = NEUTRAL_VALUE"
    "buffer after_first_consume ! nat (out_idx before_first_consume) = NEUTRAL_VALUE"
    by simp_all
  moreover
  from sentinel_outside_region[OF before_first_store_reachable,
      of 0 0 "[]" after_first_store "P0 0 []" after_first_store 0]
    first_store_step b
  have "\<exists>i x ws' d. P0 0 [] = Run (Producer i) x ws' \<and>
      producers before_first_store ! i = P_body d \<and> nat (in_idx before_first_store) = 0"
    by simp
  ultimately show ?thesis using b(3) by simp
qed

text \<open>
  C7 (target bound, no spurious operation). Across every step of a reachable state the
  two counters do not decrease and stay at most 100. Once \<open>produced_items\<close> has
  reached 100, no step of a producer changes the buffer, the cursors, the counters or
  the output; likewise for the consumers once \<open>consumed_items\<close> has reached 100.
\<close>

theorem target_bound_and_late_workers:
  assumes "reachable source_config n m s" and "step source_config a s = Some s'"
  shows "produced_items s \<le> produced_items s' \<and> consumed_items s \<le> consumed_items s' \<and>
    produced_items s' \<le> 100 \<and> consumed_items s' \<le> 100 \<and>
    ((\<exists>i r ws. a = Run (Producer i) r ws) \<and> 100 \<le> produced_items s \<longrightarrow> same_data s s') \<and>
    ((\<exists>j r ws. a = Run (Consumer j) r ws) \<and> 100 \<le> consumed_items s \<longrightarrow> same_data s s')"
proof -
  from reachable_invariant[OF wf_source_config reachable_step[OF assms]]
  have "target_inv source_config s'" by (simp add: invariant_def)
  then have "produced_items s' \<le> 100" "consumed_items s' \<le> 100"
    by (simp_all add: target_inv_def source_config_def)
  moreover have "(\<exists>i r ws. a = Run (Producer i) r ws) \<and> 100 \<le> produced_items s
      \<longrightarrow> same_data s s'"
    using assms(2) by (cases rule: step_data_cases) (auto simp: source_config_def)
  moreover have "(\<exists>j r ws. a = Run (Consumer j) r ws) \<and> 100 \<le> consumed_items s
      \<longrightarrow> same_data s s'"
    using assms(2) by (cases rule: step_data_cases) (auto simp: source_config_def)
  ultimately show ?thesis using counters_mono_step[OF assms(2)] by simp
qed

theorem target_bound_and_late_workers_witness:
  "consumed_items late_consumer_state = 100 \<and>
   same_data late_consumer_state
     ((lockstep_state 100 [P_exit] [C_exit, C_signal])\<lparr>mutex := Some (Consumer 1)\<rparr>) \<and>
   produced_items after_first_store \<le> 100 \<and>
   produced_items before_first_store \<le> produced_items after_first_store"
proof -
  have c: "consumed_items late_consumer_state = 100"
    by (simp add: late_consumer_state_def lockstep_state_def)
  have "\<exists>j r ws. C1 = Run (Consumer j) r ws" by (simp add: C1_def)
  with target_bound_and_late_workers[OF late_consumer_reachable late_consumer_step] c
  have "same_data late_consumer_state
     ((lockstep_state 100 [P_exit] [C_exit, C_signal])\<lparr>mutex := Some (Consumer 1)\<rparr>)"
    by simp
  with target_bound_and_late_workers[OF before_first_store_reachable first_store_step] c
  show ?thesis by simp
qed

text \<open>
  C8 (scenario with capacity 3 and target 5). With one producer and one consumer the
  program completes: the execution \<open>scenario_schedule\<close>, in which the producer fills
  the buffer and blocks until the consumer makes room, runs from the initial state to
  the state \<open>scenario_final\<close> with both threads out of their loops. There, and in the
  final state of every other execution that ends with both threads out of their loops,
  the producer wrote at the slots 0, 1, 2, 0, 1, the consumer read at the slots
  0, 1, 2, 0, 1, the values read are the values written, in the same order, the buffer
  holds the sentinel in all three slots, and both counters are 5.
\<close>

theorem scenario_capacity_3_target_5:
  "run scenario_config scenario_schedule (init_shared scenario_config 1 1) = Some scenario_final \<and>
   all_exited scenario_final \<and>
   map fst (prod_lines (stdout scenario_final)) = [0, 1, 2, 0, 1] \<and>
   map fst (cons_lines (stdout scenario_final)) = [0, 1, 2, 0, 1] \<and>
   map snd (prod_lines (stdout scenario_final)) = [11, 21, 31, 41, 51] \<and>
   map snd (cons_lines (stdout scenario_final)) = [11, 21, 31, 41, 51] \<and>
   buffer scenario_final = [NEUTRAL_VALUE, NEUTRAL_VALUE, NEUTRAL_VALUE] \<and>
   produced_items scenario_final = 5 \<and> consumed_items scenario_final = 5 \<and>
   (reachable scenario_config 1 1 s \<and> all_exited s \<longrightarrow>
      map fst (prod_lines (stdout s)) = [0, 1, 2, 0, 1] \<and>
      map fst (cons_lines (stdout s)) = [0, 1, 2, 0, 1] \<and>
      map snd (cons_lines (stdout s)) = map snd (prod_lines (stdout s)) \<and>
      buffer s = [NEUTRAL_VALUE, NEUTRAL_VALUE, NEUTRAL_VALUE] \<and>
      produced_items s = 5 \<and> consumed_items s = 5)"
proof -
  have e: "all_exited scenario_final"
    by (simp add: all_exited_def scenario_final_def)
  have w: "map snd (prod_lines (stdout scenario_final)) = [11, 21, 31, 41, 51]"
    by (simp add: scenario_final_def)
  from scenario_completed_states[OF scenario_final_reachable e] w
  have "map fst (prod_lines (stdout scenario_final)) = [0, 1, 2, 0, 1]"
    "map fst (cons_lines (stdout scenario_final)) = [0, 1, 2, 0, 1]"
    "map snd (cons_lines (stdout scenario_final)) = [11, 21, 31, 41, 51]"
    "buffer scenario_final = [NEUTRAL_VALUE, NEUTRAL_VALUE, NEUTRAL_VALUE]"
    "produced_items scenario_final = 5" "consumed_items scenario_final = 5"
    by simp_all
  with scenario_run e w scenario_completed_states[of s] show ?thesis by blast
qed

theorem scenario_capacity_3_target_5_witness:
  "run scenario_config scenario_schedule (init_shared scenario_config 1 1) = Some scenario_final \<and>
   reachable scenario_config 1 1 scenario_final \<and> all_exited scenario_final \<and>
   map fst (prod_lines (stdout scenario_final)) = [0, 1, 2, 0, 1] \<and>
   map fst (cons_lines (stdout scenario_final)) = [0, 1, 2, 0, 1] \<and>
   map snd (cons_lines (stdout scenario_final)) = map snd (prod_lines (stdout scenario_final)) \<and>
   buffer scenario_final = [NEUTRAL_VALUE, NEUTRAL_VALUE, NEUTRAL_VALUE] \<and>
   produced_items scenario_final = 5 \<and> consumed_items scenario_final = 5"
proof -
  note c = scenario_capacity_3_target_5[of scenario_final]
  from c have r: "run scenario_config scenario_schedule (init_shared scenario_config 1 1)
      = Some scenario_final" by blast
  from run_reachable[OF reachable_init r]
  have "reachable scenario_config 1 1 scenario_final" .
  with c show ?thesis by blast
qed

text \<open>
  C9 (progress). The claim that no worker stays blocked fails on the code. With one
  producer and two consumers the program reaches a state in which both counters are
  100, the producer and the first consumer have left their loops, and the second
  consumer is blocked in \<open>pthread_cond_wait\<close> on \<open>empty\<close>. No thread can take a step
  there: a consumer signals \<open>full\<close> only, and every producer is gone, so nothing but a
  spurious wakeup unblocks the consumer, and \<open>main\<close> stays in \<open>pthread_join\<close>.
\<close>

theorem starved_consumer:
  "reachable source_config 1 2 starved_state \<and>
   produced_items starved_state = 100 \<and> consumed_items starved_state = 100 \<and>
   producers starved_state = [P_exit] \<and> consumers starved_state = [C_exit, C_waiting] \<and>
   (\<forall>t r ws. step source_config (Run t r ws) starved_state = None)"
proof -
  have "step source_config (Run t r ws) starved_state = None" for t r ws
  proof (cases t)
    case (Producer i)
    then show ?thesis
      by (cases i) (simp_all add: step_def producer_def starved_state_def lockstep_state_def)
  next
    case (Consumer j)
    have "j = 0 \<or> j = 1 \<or> 2 \<le> j" by arith
    then show ?thesis
      using Consumer
      by (auto simp: step_def consumer_def starved_state_def lockstep_state_def)
  qed
  with starved_state_reachable show ?thesis
    by (simp add: starved_state_def lockstep_state_def)
qed

text \<open>
  C10 (ring coherence). In every reachable state \<open>current_items_num\<close> is
  \<open>produced_items - consumed_items\<close>, \<open>in\<close> is \<open>produced_items mod 10\<close> and \<open>out\<close> is
  \<open>consumed_items mod 10\<close>; and every step from a state with these three equations
  leads to a state with them.
\<close>

theorem ring_coherence:
  "(reachable source_config n m s \<longrightarrow>
      current_items_num s = produced_items s - consumed_items s \<and>
      in_idx s = produced_items s mod 10 \<and> out_idx s = consumed_items s mod 10) \<and>
   (current_items_num s = produced_items s - consumed_items s \<and>
    in_idx s = produced_items s mod 10 \<and> out_idx s = consumed_items s mod 10 \<and>
    step source_config a s = Some s' \<longrightarrow>
      current_items_num s' = produced_items s' - consumed_items s' \<and>
      in_idx s' = produced_items s' mod 10 \<and> out_idx s' = consumed_items s' mod 10)"
proof (intro conjI impI)
  assume "reachable source_config n m s"
  from reachable_invariant[OF wf_source_config this]
  have c: "coherent source_config s" by (simp add: invariant_def)
  then show "current_items_num s = produced_items s - consumed_items s"
    "in_idx s = produced_items s mod 10" "out_idx s = consumed_items s mod 10"
    by (simp_all add: coherent_def source_config_def)
next
  assume "current_items_num s = produced_items s - consumed_items s \<and>
    in_idx s = produced_items s mod 10 \<and> out_idx s = consumed_items s mod 10 \<and>
    step source_config a s = Some s'"
  then have "coherent source_config s'"
    using coherent_step[of source_config a s s']
    by (simp add: coherent_def source_config_def)
  then show "current_items_num s' = produced_items s' - consumed_items s'"
    "in_idx s' = produced_items s' mod 10" "out_idx s' = consumed_items s' mod 10"
    by (simp_all add: coherent_def source_config_def)
qed

theorem ring_coherence_witness:
  "produced_items before_first_store = 0 \<and> consumed_items before_first_store = 0 \<and>
   produced_items after_first_store = 1 \<and> consumed_items after_first_store = 0 \<and>
   current_items_num after_first_store = 1 \<and>
   in_idx after_first_store = 1 \<and> out_idx after_first_store = 0"
proof -
  have v: "produced_items before_first_store = 0" "consumed_items before_first_store = 0"
    "current_items_num before_first_store = 0" "in_idx before_first_store = 0"
    "out_idx before_first_store = 0"
    "produced_items after_first_store = 1" "consumed_items after_first_store = 0"
    by (simp_all add: after_first_store_def before_first_store_def set_ppc_def produce_def
        Let_def init_shared_def)
  from ring_coherence[of 1 1 before_first_store "P0 0 []" after_first_store]
    before_first_store_reachable first_store_step v
  show ?thesis by simp
qed

end
